theory Spec2Isabelle
  imports Complex_Main "HOL-Library.Product_Lexorder"
begin

section \<open>External capabilities\<close>

text \<open>
  The programs call OpenCV for three things: \<open>cv::imread\<close> decodes a file (the returned
  matrix has no data when decoding fails), \<open>PHash::compute\<close> turns a decoded image
  into a fingerprint, and \<open>PHash::compare\<close> gives the distance of two fingerprints as a
  \<open>double\<close>. They are parameters of the model. A \<open>cv::Mat\<close> holding a fingerprint is an
  \<open>'h option\<close>: \<open>None\<close> is the matrix whose \<open>data\<close> pointer is null. Distances and
  thresholds are finite doubles, compared with \<open>\<le>\<close> only, and are modelled as reals.
\<close>

record ('img, 'h) hasher =
  imread :: "string \<Rightarrow> 'img option"
  compute :: "'img \<Rightarrow> 'h"
  compare :: "'h \<Rightarrow> 'h \<Rightarrow> real"

section \<open>Containers\<close>

text \<open>
  A \<open>std::set<unsigned long>\<close> is the list of its elements in iteration (ascending)
  order; \<open>emplace\<close> on it is \<^const>\<open>insort_insert_key\<close> with the identity key. A
  \<open>std::map<unsigned long, V>\<close> is the list of its entries in iteration (ascending key)
  order. Ids are indices into the file list and are modelled as naturals.
\<close>

type_synonym similarities = "(nat \<times> nat list) list"

definition contains :: "(nat \<times> 'v) list \<Rightarrow> nat \<Rightarrow> bool" where
  "contains m k = (map_of m k \<noteq> None)"

text \<open>\<open>std::map::emplace\<close> (and \<open>insert\<close>): adds the entry unless the key is present.\<close>

fun emplace :: "nat \<Rightarrow> 'v \<Rightarrow> (nat \<times> 'v) list \<Rightarrow> (nat \<times> 'v) list" where
  "emplace k v [] = [(k, v)]"
| "emplace k v ((k', v') # m) =
     (if k < k' then (k, v) # (k', v') # m
      else if k = k' then (k', v') # m
      else (k', v') # emplace k v m)"

text \<open>\<open>m.at(k).emplace(x)\<close> for a key that is present.\<close>

fun at_emplace :: "nat \<Rightarrow> nat \<Rightarrow> similarities \<Rightarrow> similarities" where
  "at_emplace k x [] = []"
| "at_emplace k x ((k', s) # m) =
     (if k = k' then (k', insort_insert x s) # m else (k', s) # at_emplace k x m)"

section \<open>img-similarity-cluster\<close>

subsection \<open>Hash phase\<close>

text \<open>
  The body of the loop of \<open>calculate_hash_values\<close> for one file: an image without data
  is stored as it is (no data), otherwise its hash is stored.
\<close>

definition hash_of :: "('img, 'h) hasher \<Rightarrow> string \<Rightarrow> 'h option" where
  "hash_of H file =
     (case imread H file of None \<Rightarrow> None | Some current_image \<Rightarrow> Some (compute H current_image))"

text \<open>
  \<open>main\<close> resizes \<open>hash_list\<close> to the size of \<open>file_list\<close> before the workers start, so
  \<open>hash_list.at(i)\<close> is in range; \<open>num_threads\<close> is at least 1.
\<close>

definition calculate_hash_values ::
  "('img, 'h) hasher \<Rightarrow> string list \<Rightarrow> 'h option list \<Rightarrow> nat \<Rightarrow> nat \<Rightarrow> 'h option list" where
  "calculate_hash_values H file_list hash_list thread_id num_threads =
     fold (\<lambda>i hl. if i mod num_threads \<noteq> thread_id then hl
                   else hl[i := hash_of H (file_list ! i)])
       [0..<length file_list] hash_list"

subsection \<open>Comparison phase\<close>

text \<open>The section of \<open>calculate_similar_pairs\<close> that runs under the mutex.\<close>

definition insert_similar :: "nat \<Rightarrow> nat \<Rightarrow> similarities \<Rightarrow> similarities" where
  "insert_similar i j image_similarities =
     at_emplace i j
       (if contains image_similarities i then image_similarities
        else emplace i [] image_similarities)"

definition calculate_similar_pairs ::
  "('img, 'h) hasher \<Rightarrow> 'h option list \<Rightarrow> similarities \<Rightarrow> real \<Rightarrow> nat \<Rightarrow> nat \<Rightarrow> similarities" where
  "calculate_similar_pairs H hash_list image_similarities threshold thread_id num_threads =
     fold (\<lambda>i sims.
         if i mod num_threads \<noteq> thread_id then sims
         else case hash_list ! i of
           None \<Rightarrow> sims
         | Some hi \<Rightarrow>
             fold (\<lambda>j sims'.
                 case hash_list ! j of
                   None \<Rightarrow> sims'
                 | Some hj \<Rightarrow>
                     if compare H hi hj \<le> threshold then insert_similar i j sims' else sims')
               [i + 1..<length hash_list] sims)
       [0..<length hash_list] image_similarities"

subsection \<open>Cluster construction\<close>

text \<open>
  \<open>build_temp_cluster\<close> and the loop over \<open>image_similarities.at(start)\<close> inside it. The
  loop continues with the cluster as the recursive call left it.
\<close>

function build_temp_cluster :: "nat list \<Rightarrow> similarities \<Rightarrow> nat \<Rightarrow> nat list"
  and build_temp_cluster_loop :: "nat list \<Rightarrow> similarities \<Rightarrow> nat list \<Rightarrow> nat list"
where
  "build_temp_cluster temp_cluster image_similarities start =
     (case map_of image_similarities start of
        None \<Rightarrow> temp_cluster
      | Some neighbours \<Rightarrow> build_temp_cluster_loop temp_cluster image_similarities neighbours)"
| "build_temp_cluster_loop temp_cluster image_similarities [] = temp_cluster"
| "build_temp_cluster_loop temp_cluster image_similarities (i # rest) =
     (if i \<in> set temp_cluster
      then build_temp_cluster_loop temp_cluster image_similarities rest
      else build_temp_cluster_loop
             (build_temp_cluster (insort_insert i temp_cluster) image_similarities i)
             image_similarities rest)"
  by pat_completeness auto

text \<open>The ids of a graph: its keys and everything in its neighbour sets.\<close>

definition graph_ids :: "similarities \<Rightarrow> nat set" where
  "graph_ids m = fst ` set m \<union> \<Union> (set ` snd ` set m)"

lemma finite_graph_ids: "finite (graph_ids m)"
  by (simp add: graph_ids_def)

lemma map_of_graph_ids: "map_of m k = Some ns \<Longrightarrow> set ns \<subseteq> graph_ids m"
  by (force simp: graph_ids_def dest: map_of_SomeD)

lemma build_temp_cluster_grows_partial:
  "build_temp_cluster_build_temp_cluster_loop_dom (Inl (tc, m, start)) \<Longrightarrow>
     set tc \<subseteq> set (build_temp_cluster tc m start)"
  "build_temp_cluster_build_temp_cluster_loop_dom (Inr (tc, m, ns)) \<Longrightarrow>
     set tc \<subseteq> set (build_temp_cluster_loop tc m ns)"
proof (induction tc m start and tc m ns
    rule: build_temp_cluster_build_temp_cluster_loop.pinduct)
  case (1 tc m start)
  then show ?case
    by (simp add: build_temp_cluster.psimps split: option.splits)
next
  case (2 tc m)
  then show ?case
    by (simp add: build_temp_cluster_loop.psimps)
next
  case (3 tc m i rest)
  show ?case
  proof (cases "i \<in> set tc")
    case True
    with 3 show ?thesis
      by (simp add: build_temp_cluster_loop.psimps)
  next
    case False
    with 3 have "set (insort_insert i tc) \<subseteq>
        set (build_temp_cluster (insort_insert i tc) m i)"
      and "set (build_temp_cluster (insort_insert i tc) m i) \<subseteq>
        set (build_temp_cluster_loop (build_temp_cluster (insort_insert i tc) m i) m rest)"
      by simp_all
    with False 3(1) show ?thesis
      by (auto simp: build_temp_cluster_loop.psimps set_insort_insert)
  qed
qed

text \<open>
  The termination order: the ids not yet in the cluster (of the graph and of the list
  still to be scanned), then the function before its loop, then the length of the list.
\<close>

definition build_measure ::
  "nat list \<times> similarities \<times> nat + nat list \<times> similarities \<times> nat list \<Rightarrow> nat \<times> nat \<times> nat" where
  "build_measure x =
     (case x of
        Inl (tc, m, start) \<Rightarrow> (card (graph_ids m - set tc), 1, 0)
      | Inr (tc, m, ns) \<Rightarrow> (card ((graph_ids m \<union> set ns) - set tc), 0, length ns))"

definition build_order ::
  "((nat list \<times> similarities \<times> nat + nat list \<times> similarities \<times> nat list) \<times>
    (nat list \<times> similarities \<times> nat + nat list \<times> similarities \<times> nat list)) set" where
  "build_order = inv_image (less_than <*lex*> less_than <*lex*> less_than) build_measure"

lemma wf_build_order: "wf build_order"
  unfolding build_order_def by (intro wf_inv_image wf_lex_prod wf_less_than)

lemma build_order_enter:
  assumes "map_of m start = Some ns"
  shows "(Inr (tc, m, ns), Inl (tc, m, start)) \<in> build_order"
proof -
  from assms have "graph_ids m \<union> set ns = graph_ids m"
    using map_of_graph_ids by blast
  then show ?thesis
    by (simp add: build_order_def build_measure_def)
qed

lemma build_order_next:
  assumes "set tc \<subseteq> set tc'"
  shows "(Inr (tc', m, rest), Inr (tc, m, i # rest)) \<in> build_order"
proof -
  from assms have "card ((graph_ids m \<union> set rest) - set tc')
      \<le> card ((graph_ids m \<union> set (i # rest)) - set tc)"
    by (intro card_mono) (auto simp: finite_graph_ids)
  then show ?thesis
    by (auto simp: build_order_def build_measure_def)
qed

lemma build_order_call:
  assumes "i \<notin> set tc"
  shows "(Inl (insort_insert i tc, m, i), Inr (tc, m, i # rest)) \<in> build_order"
proof -
  from assms have "graph_ids m - set (insort_insert i tc)
      \<subset> (graph_ids m \<union> set (i # rest)) - set tc"
    by (auto simp: set_insort_insert)
  then have "card (graph_ids m - set (insort_insert i tc))
      < card ((graph_ids m \<union> set (i # rest)) - set tc)"
    by (intro psubset_card_mono) (auto simp: finite_graph_ids)
  then show ?thesis
    by (simp add: build_order_def build_measure_def)
qed

termination build_temp_cluster
proof (relation build_order)
  show "wf build_order"
    by (rule wf_build_order)
next
  fix tc :: "nat list" and m :: similarities and start ns
  assume "map_of m start = Some ns"
  then show "(Inr (tc, m, ns), Inl (tc, m, start)) \<in> build_order"
    by (rule build_order_enter)
next
  fix tc :: "nat list" and m :: similarities and i rest
  show "(Inr (tc, m, rest), Inr (tc, m, i # rest)) \<in> build_order"
    by (rule build_order_next) simp
next
  fix tc :: "nat list" and m :: similarities and i rest
  assume "i \<notin> set tc"
  then show "(Inl (insort_insert i tc, m, i), Inr (tc, m, i # rest)) \<in> build_order"
    by (rule build_order_call)
next
  fix tc :: "nat list" and m :: similarities and i rest
  assume "build_temp_cluster_build_temp_cluster_loop_dom (Inl (insort_insert i tc, m, i))"
  then have "set tc \<subseteq> set (build_temp_cluster (insort_insert i tc) m i)"
    using build_temp_cluster_grows_partial(1) [of "insort_insert i tc" m i]
    by (auto simp: set_insort_insert)
  then show "(Inr (build_temp_cluster (insort_insert i tc) m i, m, rest), Inr (tc, m, i # rest))
      \<in> build_order"
    by (rule build_order_next)
qed

lemma build_temp_cluster_grows:
  "set tc \<subseteq> set (build_temp_cluster tc m start)"
  "set tc \<subseteq> set (build_temp_cluster_loop tc m ns)"
proof (induction tc m start and tc m ns rule: build_temp_cluster_build_temp_cluster_loop.induct)
  case (1 tc m start)
  then show ?case
    by (simp split: option.splits)
next
  case (2 tc m)
  show ?case
    by simp
next
  case (3 tc m i rest)
  then show ?case
    by (auto simp: set_insort_insert)
qed

text \<open>
  The same traversal with a bound on the depth of the recursion: \<open>d\<close> is the number of
  activations of \<open>build_temp_cluster\<close> the call stack still has room for, and \<open>None\<close>
  is a stack that ran out.
\<close>

fun build_temp_cluster_depth :: "nat \<Rightarrow> nat list \<Rightarrow> similarities \<Rightarrow> nat \<Rightarrow> nat list option"
  and build_temp_cluster_depth_loop ::
    "nat \<Rightarrow> nat list \<Rightarrow> similarities \<Rightarrow> nat list \<Rightarrow> nat list option"
where
  "build_temp_cluster_depth 0 temp_cluster image_similarities start = None"
| "build_temp_cluster_depth (Suc d) temp_cluster image_similarities start =
     (case map_of image_similarities start of
        None \<Rightarrow> Some temp_cluster
      | Some neighbours \<Rightarrow>
          build_temp_cluster_depth_loop d temp_cluster image_similarities neighbours)"
| "build_temp_cluster_depth_loop d temp_cluster image_similarities [] = Some temp_cluster"
| "build_temp_cluster_depth_loop d temp_cluster image_similarities (i # rest) =
     (if i \<in> set temp_cluster
      then build_temp_cluster_depth_loop d temp_cluster image_similarities rest
      else case build_temp_cluster_depth d (insort_insert i temp_cluster) image_similarities i of
             None \<Rightarrow> None
           | Some temp_cluster' \<Rightarrow>
               build_temp_cluster_depth_loop d temp_cluster' image_similarities rest)"

text \<open>
  The loop of \<open>main\<close> that unifies \<open>temp_cluster\<close> with the existing clusters, together
  with the \<open>push_back\<close> that follows it: the first cluster with a common element
  receives the elements of \<open>temp_cluster\<close> and the loop breaks; when no cluster has
  one, \<open>temp_cluster\<close> becomes a new last cluster.
\<close>

fun unify_temp_cluster :: "nat list \<Rightarrow> nat list list \<Rightarrow> nat list list" where
  "unify_temp_cluster temp_cluster [] = [temp_cluster]"
| "unify_temp_cluster temp_cluster (j # image_clusters) =
     (if list_ex (\<lambda>x. x \<in> set temp_cluster) j
      then fold insort_insert temp_cluster j # image_clusters
      else j # unify_temp_cluster temp_cluster image_clusters)"

text \<open>One round of the loop of \<open>main\<close> over the entries of \<open>image_similarities\<close>.\<close>

definition cluster_entry ::
  "similarities \<Rightarrow> nat \<times> nat list \<Rightarrow> nat list list \<Rightarrow> nat list list" where
  "cluster_entry image_similarities i image_clusters =
     (if snd i = [] then image_clusters
      else unify_temp_cluster
             (build_temp_cluster [fst i] image_similarities (fst i)) image_clusters)"

definition build_clusters :: "similarities \<Rightarrow> nat list list" where
  "build_clusters image_similarities =
     fold (cluster_entry image_similarities) image_similarities []"

subsection \<open>The run\<close>

text \<open>
  The threads of a phase are joined before the next phase starts. This model runs the
  workers of a phase one after the other, in the order of their thread ids.
\<close>

definition num_threads_of :: "nat \<Rightarrow> nat" where
  "num_threads_of hardware_concurrency =
     (if hardware_concurrency \<noteq> 0 then hardware_concurrency else 1)"

definition hash_phase ::
  "('img, 'h) hasher \<Rightarrow> nat \<Rightarrow> string list \<Rightarrow> 'h option list" where
  "hash_phase H num_threads file_list =
     fold (\<lambda>t hl. calculate_hash_values H file_list hl t num_threads)
       [0..<num_threads] (replicate (length file_list) None)"

definition similarity_phase ::
  "('img, 'h) hasher \<Rightarrow> nat \<Rightarrow> real \<Rightarrow> 'h option list \<Rightarrow> similarities" where
  "similarity_phase H num_threads threshold hash_list =
     fold (\<lambda>t sims. calculate_similar_pairs H hash_list sims threshold t num_threads)
       [0..<num_threads] []"

text \<open>
  The clusters of ids that \<open>main\<close> computes for a threshold and a file list, and
  \<open>main\<close> itself from the threshold option on: \<open>stod\<close> is \<open>None\<close> where \<open>std::stod\<close>
  throws. The result is the printed clusters, each the paths of its ids in ascending
  order of id.
\<close>

definition image_clusters_of ::
  "('img, 'h) hasher \<Rightarrow> nat \<Rightarrow> real \<Rightarrow> string list \<Rightarrow> nat list list" where
  "image_clusters_of H num_threads threshold file_list =
     build_clusters
       (similarity_phase H num_threads threshold (hash_phase H num_threads file_list))"

definition cluster_threshold :: "(string \<Rightarrow> real option) \<Rightarrow> bool \<Rightarrow> string \<Rightarrow> real" where
  "cluster_threshold stod flag_threshold string_threshold =
     (if flag_threshold
      then (case stod string_threshold of Some v \<Rightarrow> v | None \<Rightarrow> 0.2)
      else 0.2)"

definition img_similarity_cluster ::
  "(string \<Rightarrow> real option) \<Rightarrow> ('img, 'h) hasher \<Rightarrow> nat \<Rightarrow> bool \<Rightarrow> string \<Rightarrow> string list
     \<Rightarrow> string list list" where
  "img_similarity_cluster stod H hardware_concurrency flag_threshold string_threshold file_list =
     map (map (\<lambda>j. file_list ! j))
       (image_clusters_of H (num_threads_of hardware_concurrency)
          (cluster_threshold stod flag_threshold string_threshold) file_list)"

subsection \<open>Workers and schedules\<close>

text \<open>
  A worker of the hash phase assigns elements of \<open>hash_list\<close>, a worker of the comparison
  phase runs the section under the mutex once for every similar pair it finds. The
  assignments and the locked sections of one worker, in program order:
\<close>

definition hash_writes ::
  "('img, 'h) hasher \<Rightarrow> string list \<Rightarrow> nat \<Rightarrow> nat \<Rightarrow> (nat \<times> 'h option) list" where
  "hash_writes H file_list thread_id num_threads =
     map (\<lambda>i. (i, hash_of H (file_list ! i)))
       (filter (\<lambda>i. i mod num_threads = thread_id) [0..<length file_list])"

definition similar_pair_sections ::
  "('img, 'h) hasher \<Rightarrow> 'h option list \<Rightarrow> real \<Rightarrow> nat \<Rightarrow> nat \<Rightarrow> (nat \<times> nat) list" where
  "similar_pair_sections H hash_list threshold thread_id num_threads =
     concat (map (\<lambda>i.
         case hash_list ! i of
           None \<Rightarrow> []
         | Some hi \<Rightarrow>
             concat (map (\<lambda>j.
                 case hash_list ! j of
                   None \<Rightarrow> []
                 | Some hj \<Rightarrow> if compare H hi hj \<le> threshold then [(i, j)] else [])
               [i + 1..<length hash_list]))
       (filter (\<lambda>i. i mod num_threads = thread_id) [0..<length hash_list]))"

definition apply_writes :: "(nat \<times> 'h option) list \<Rightarrow> 'h option list \<Rightarrow> 'h option list" where
  "apply_writes ws hash_list = fold (\<lambda>w hl. hl[fst w := snd w]) ws hash_list"

definition apply_sections :: "(nat \<times> nat) list \<Rightarrow> similarities \<Rightarrow> similarities" where
  "apply_sections ps image_similarities =
     fold (\<lambda>p. insert_similar (fst p) (snd p)) ps image_similarities"

text \<open>
  A schedule names, step by step, the worker that runs next; \<open>interleave\<close> gives the
  sequence of steps the schedule produces from the workers' own sequences. It is
  \<open>None\<close> unless the schedule runs every worker to its end and never picks a worker
  that has finished.
\<close>

fun interleave :: "nat list \<Rightarrow> 'a list list \<Rightarrow> 'a list option" where
  "interleave [] traces = (if list_all (\<lambda>t. t = []) traces then Some [] else None)"
| "interleave (k # schedule) traces =
     (if k < length traces
      then (case traces ! k of
              [] \<Rightarrow> None
            | x # t \<Rightarrow> map_option ((#) x) (interleave schedule (traces[k := t])))
      else None)"

text \<open>The two phases under given schedules of their workers.\<close>

definition scheduled_hash_phase ::
  "('img, 'h) hasher \<Rightarrow> nat \<Rightarrow> nat list \<Rightarrow> string list \<Rightarrow> 'h option list option" where
  "scheduled_hash_phase H num_threads schedule file_list =
     map_option (\<lambda>ws. apply_writes ws (replicate (length file_list) None))
       (interleave schedule (map (\<lambda>t. hash_writes H file_list t num_threads) [0..<num_threads]))"

definition scheduled_similarity_phase ::
  "('img, 'h) hasher \<Rightarrow> nat \<Rightarrow> nat list \<Rightarrow> real \<Rightarrow> 'h option list \<Rightarrow> similarities option" where
  "scheduled_similarity_phase H num_threads schedule threshold hash_list =
     map_option (\<lambda>ps. apply_sections ps [])
       (interleave schedule
          (map (\<lambda>t. similar_pair_sections H hash_list threshold t num_threads) [0..<num_threads]))"

section \<open>The variants that keep the hashes in a map\<close>

text \<open>
  \<open>img-search\<close> and the variant of \<open>img-similarity-cluster\<close> with the option \<open>-u\<close> share
  this \<open>calculate_hash_values\<close>: the hash of a decoded image is inserted into a
  \<open>std::map\<close> under the mutex, and nothing is stored for an image without data.
\<close>

definition calculate_hash_values_map ::
  "('img, 'h) hasher \<Rightarrow> string list \<Rightarrow> (nat \<times> 'h) list \<Rightarrow> nat \<Rightarrow> nat \<Rightarrow> (nat \<times> 'h) list" where
  "calculate_hash_values_map H file_list hash_list thread_id num_threads =
     fold (\<lambda>i hl. if i mod num_threads \<noteq> thread_id then hl
                   else case imread H (file_list ! i) of
                     None \<Rightarrow> hl
                   | Some current_image \<Rightarrow> emplace i (compute H current_image) hl)
       [0..<length file_list] hash_list"

definition hash_map_phase ::
  "('img, 'h) hasher \<Rightarrow> nat \<Rightarrow> string list \<Rightarrow> (nat \<times> 'h) list" where
  "hash_map_phase H num_threads file_list =
     fold (\<lambda>t hl. calculate_hash_values_map H file_list hl t num_threads) [0..<num_threads] []"

subsection \<open>img-search\<close>

text \<open>
  \<open>argv\<close> starts with the program name. With \<open>-t\<close> first, the next argument is the
  threshold and the search files start at index 3; when \<open>std::stod\<close> throws, the
  exception is caught, its message goes to \<open>std::cerr\<close> and the threshold stays 2.0.
  The triple is the threshold, \<open>skip_argv\<close> and whether an exception was caught.
\<close>

definition search_threshold :: "(string \<Rightarrow> real option) \<Rightarrow> string list \<Rightarrow> real \<times> nat \<times> bool" where
  "search_threshold stod argv =
     (if 3 \<le> length argv \<and> argv ! 1 = ''-t''
      then (case stod (argv ! 2) of Some v \<Rightarrow> (v, 3, False) | None \<Rightarrow> (2.0, 3, True))
      else (2.0, 1, False))"

text \<open>The scan of the haystack hashes against the search hashes.\<close>

definition search_results ::
  "('img, 'h) hasher \<Rightarrow> real \<Rightarrow> (nat \<times> 'h) list \<Rightarrow> (nat \<times> 'h) list \<Rightarrow> nat list" where
  "search_results H threshold img_hash_values search_hash_values =
     fold (\<lambda>it1 results.
         fold (\<lambda>it2 results'.
             if compare H (snd it1) (snd it2) \<le> threshold
             then insort_insert (fst it1) results' else results')
           search_hash_values results)
       img_hash_values []"

datatype search_output = Usage | Found "string list"

record search_run =
  exception_caught :: bool
  printed :: search_output

text \<open>
  \<open>main\<close> of \<open>img-search\<close>: the lines of standard input are the haystack, the result is
  what goes to standard output (the usage text, or the paths found, one per line).
\<close>

definition img_search ::
  "(string \<Rightarrow> real option) \<Rightarrow> ('img, 'h) hasher \<Rightarrow> nat \<Rightarrow> string list \<Rightarrow> string list
     \<Rightarrow> search_run" where
  "img_search stod H hardware_concurrency argv stdin_lines =
     (if length argv = 1 \<or> argv ! 1 = ''-h''
      then \<lparr>exception_caught = False, printed = Usage\<rparr>
      else
        let threshold = fst (search_threshold stod argv);
            skip_argv = fst (snd (search_threshold stod argv));
            search_list = drop skip_argv argv;
            search_hash_values = calculate_hash_values_map H search_list [] 0 1;
            file_list = stdin_lines;
            img_hash_values = hash_map_phase H (num_threads_of hardware_concurrency) file_list;
            results = search_results H threshold img_hash_values search_hash_values
        in \<lparr>exception_caught = snd (snd (search_threshold stod argv)),
            printed = Found (map (\<lambda>r. file_list ! r) results)\<rparr>)"

subsection \<open>img-similarity-cluster with the option -u\<close>

text \<open>\<open>m[k] = v\<close> on a \<open>std::map\<close>, and \<open>m[k].emplace(x)\<close> on a map of sets.\<close>

fun subscript_assign :: "'k::linorder \<Rightarrow> 'v \<Rightarrow> ('k \<times> 'v) list \<Rightarrow> ('k \<times> 'v) list" where
  "subscript_assign k v [] = [(k, v)]"
| "subscript_assign k v ((k', v') # m) =
     (if k < k' then (k, v) # (k', v') # m
      else if k = k' then (k, v) # m
      else (k', v') # subscript_assign k v m)"

fun subscript_emplace :: "nat \<Rightarrow> nat \<Rightarrow> similarities \<Rightarrow> similarities" where
  "subscript_emplace k x [] = [(k, [x])]"
| "subscript_emplace k x ((k', s) # m) =
     (if k < k' then (k, [x]) # (k', s) # m
      else if k = k' then (k', insort_insert x s) # m
      else (k', s) # subscript_emplace k x m)"

text \<open>
  The map of all pairs of hashed files to their distance: every entry of
  \<open>img_hash_values\<close> against the entries after it.
\<close>

type_synonym deltas = "((nat \<times> nat) \<times> real) list"

fun image_deltas_of :: "('img, 'h) hasher \<Rightarrow> (nat \<times> 'h) list \<Rightarrow> deltas \<Rightarrow> deltas" where
  "image_deltas_of H [] image_deltas = image_deltas"
| "image_deltas_of H (it1 # rest) image_deltas =
     image_deltas_of H rest
       (fold (\<lambda>it2. subscript_assign (fst it1, fst it2) (compare H (snd it1) (snd it2)))
          rest image_deltas)"

text \<open>
  The adjacency map: every hashed file gets an empty set, then every pair within the
  threshold is entered in both directions.
\<close>

definition delta_similarities :: "real \<Rightarrow> (nat \<times> 'h) list \<Rightarrow> deltas \<Rightarrow> similarities" where
  "delta_similarities threshold img_hash_values image_deltas =
     fold (\<lambda>i sims.
         if snd i \<le> threshold
         then subscript_emplace (snd (fst i)) (fst (fst i))
                (subscript_emplace (fst (fst i)) (snd (fst i)) sims)
         else sims)
       image_deltas
       (fold (\<lambda>i. subscript_assign (fst i) []) img_hash_values [])"

text \<open>
  \<open>build_temp_cluster\<close> of this variant reads \<open>image_similarities.at(start)\<close> without a
  test; \<open>None\<close> is the \<open>std::out_of_range\<close> that \<open>at\<close> throws for a missing key.
\<close>

function build_temp_cluster_at :: "nat list \<Rightarrow> similarities \<Rightarrow> nat \<Rightarrow> nat list option"
  and build_temp_cluster_at_loop :: "nat list \<Rightarrow> similarities \<Rightarrow> nat list \<Rightarrow> nat list option"
where
  "build_temp_cluster_at temp_cluster image_similarities start =
     (case map_of image_similarities start of
        None \<Rightarrow> None
      | Some neighbours \<Rightarrow> build_temp_cluster_at_loop temp_cluster image_similarities neighbours)"
| "build_temp_cluster_at_loop temp_cluster image_similarities [] = Some temp_cluster"
| "build_temp_cluster_at_loop temp_cluster image_similarities (i # rest) =
     (if i \<in> set temp_cluster
      then build_temp_cluster_at_loop temp_cluster image_similarities rest
      else case build_temp_cluster_at (insort_insert i temp_cluster) image_similarities i of
             None \<Rightarrow> None
           | Some temp_cluster' \<Rightarrow>
               build_temp_cluster_at_loop temp_cluster' image_similarities rest)"
  by pat_completeness auto

lemma build_temp_cluster_at_partial:
  "build_temp_cluster_at_build_temp_cluster_at_loop_dom (Inl (tc, m, start)) \<Longrightarrow>
     build_temp_cluster_at tc m start = Some r \<Longrightarrow> r = build_temp_cluster tc m start"
  "build_temp_cluster_at_build_temp_cluster_at_loop_dom (Inr (tc, m, ns)) \<Longrightarrow>
     build_temp_cluster_at_loop tc m ns = Some r \<Longrightarrow> r = build_temp_cluster_loop tc m ns"
proof (induction tc m start and tc m ns arbitrary: r and r
    rule: build_temp_cluster_at_build_temp_cluster_at_loop.pinduct)
  case (1 tc m start)
  then show ?case
    by (auto simp: build_temp_cluster_at.psimps split: option.splits)
next
  case (2 tc m)
  then show ?case
    by (simp add: build_temp_cluster_at_loop.psimps)
next
  case (3 tc m i rest)
  then show ?case
    by (auto simp: build_temp_cluster_at_loop.psimps split: if_splits option.splits)
qed

termination build_temp_cluster_at
proof (relation build_order)
  show "wf build_order"
    by (rule wf_build_order)
next
  fix tc :: "nat list" and m :: similarities and start ns
  assume "map_of m start = Some ns"
  then show "(Inr (tc, m, ns), Inl (tc, m, start)) \<in> build_order"
    by (rule build_order_enter)
next
  fix tc :: "nat list" and m :: similarities and i rest
  show "(Inr (tc, m, rest), Inr (tc, m, i # rest)) \<in> build_order"
    by (rule build_order_next) simp
next
  fix tc :: "nat list" and m :: similarities and i rest
  assume "i \<notin> set tc"
  then show "(Inl (insort_insert i tc, m, i), Inr (tc, m, i # rest)) \<in> build_order"
    by (rule build_order_call)
next
  fix tc tc' :: "nat list" and m :: similarities and i rest
  assume "build_temp_cluster_at (insort_insert i tc) m i = Some tc'"
    and "build_temp_cluster_at_build_temp_cluster_at_loop_dom (Inl (insort_insert i tc, m, i))"
  then have "tc' = build_temp_cluster (insort_insert i tc) m i"
    by (rule build_temp_cluster_at_partial(1) [rotated])
  then have "set tc \<subseteq> set tc'"
    using build_temp_cluster_grows(1) [of "insort_insert i tc" m i]
    by (auto simp: set_insort_insert)
  then show "(Inr (tc', m, rest), Inr (tc, m, i # rest)) \<in> build_order"
    by (rule build_order_next)
qed

text \<open>
  The loop of \<open>main\<close> over the entries of \<open>image_similarities\<close>; the state is
  \<open>image_clusters\<close> and \<open>unique_images\<close>. An exception of \<open>build_temp_cluster\<close> is not
  caught and ends the run.
\<close>

fun cluster_entries_unique ::
  "similarities \<Rightarrow> similarities \<Rightarrow> nat list list \<times> nat list \<Rightarrow> (nat list list \<times> nat list) option"
where
  "cluster_entries_unique image_similarities [] state = Some state"
| "cluster_entries_unique image_similarities (i # rest) state =
     (if snd i = []
      then cluster_entries_unique image_similarities rest
             (fst state, insort_insert (fst i) (snd state))
      else case build_temp_cluster_at [fst i] image_similarities (fst i) of
             None \<Rightarrow> None
           | Some temp_cluster \<Rightarrow>
               cluster_entries_unique image_similarities rest
                 (unify_temp_cluster temp_cluster (fst state), snd state))"

definition similarities_unique ::
  "('img, 'h) hasher \<Rightarrow> nat \<Rightarrow> real \<Rightarrow> string list \<Rightarrow> similarities" where
  "similarities_unique H num_threads threshold file_list =
     delta_similarities threshold (hash_map_phase H num_threads file_list)
       (image_deltas_of H (hash_map_phase H num_threads file_list) [])"

definition image_clusters_unique_of ::
  "('img, 'h) hasher \<Rightarrow> nat \<Rightarrow> real \<Rightarrow> string list \<Rightarrow> (nat list list \<times> nat list) option" where
  "image_clusters_unique_of H num_threads threshold file_list =
     cluster_entries_unique (similarities_unique H num_threads threshold file_list)
       (similarities_unique H num_threads threshold file_list) ([], [])"



chapter \<open>Notions used in the statements\<close>

section \<open>Maps, sets and graphs\<close>

text \<open>
  The lists that model a \<open>std::map\<close> and a \<open>std::set\<close> are strictly ascending:
  the keys of a map, and the elements of every set stored in a map of sets.
\<close>

definition keys_ascending :: "('k::linorder \<times> 'v) list \<Rightarrow> bool" where
  "keys_ascending m = sorted_wrt (<) (map fst m)"

definition sets_ascending :: "similarities \<Rightarrow> bool" where
  "sets_ascending m = list_all (\<lambda>e. sorted_wrt (<) (snd e)) m"

text \<open>
  The set stored under a key of the adjacency map, empty when the key is missing.
\<close>

definition neighbours :: "similarities \<Rightarrow> nat \<Rightarrow> nat list" where
  "neighbours m i = (case map_of m i of None \<Rightarrow> [] | Some ns \<Rightarrow> ns)"

text \<open>
  Two ids are a similar pair when both have a hash and \<open>compare\<close>, called on the
  hashes in this order, is within the threshold.
\<close>

definition similar_pair :: "('img, 'h) hasher \<Rightarrow> 'h option list \<Rightarrow> real \<Rightarrow> nat \<Rightarrow> nat \<Rightarrow> bool" where
  "similar_pair H hash_list threshold i j =
     (case hash_list ! i of
        None \<Rightarrow> False
      | Some hi \<Rightarrow>
          (case hash_list ! j of
             None \<Rightarrow> False
           | Some hj \<Rightarrow> compare H hi hj \<le> threshold))"

text \<open>
  The hashed files in the order of their ids: what the hash phase into a map
  leaves in \<open>img_hash_values\<close>.
\<close>

definition valid_hashes :: "('img, 'h) hasher \<Rightarrow> string list \<Rightarrow> (nat \<times> 'h) list" where
  "valid_hashes H file_list =
     concat (map (\<lambda>i. case hash_of H (file_list ! i) of None \<Rightarrow> [] | Some h \<Rightarrow> [(i, h)])
       [0..<length file_list])"

text \<open>
  The pairs of an element of a list and a later one: the pairs the loops over
  \<open>it1\<close> and \<open>it2\<close> visit.
\<close>

fun ordered_pairs :: "'a list \<Rightarrow> ('a \<times> 'a) list" where
  "ordered_pairs [] = []"
| "ordered_pairs (x # xs) = map (Pair x) xs @ ordered_pairs xs"

text \<open>
  A haystack file is within the threshold of a search file when both decode and
  \<open>compare\<close>, called on the hash of the haystack file and the hash of the search file,
  is at most the threshold.
\<close>

definition within_threshold :: "('img, 'h) hasher \<Rightarrow> real \<Rightarrow> string \<Rightarrow> string \<Rightarrow> bool" where
  "within_threshold H threshold file query =
     (case hash_of H file of
        None \<Rightarrow> False
      | Some h \<Rightarrow>
          (case hash_of H query of
             None \<Rightarrow> False
           | Some s \<Rightarrow> compare H h s \<le> threshold))"

text \<open>
  Every id in a stored set is a key: on such a graph \<open>at\<close> never throws.
\<close>

definition neighbours_are_keys :: "similarities \<Rightarrow> bool" where
  "neighbours_are_keys m = list_all (\<lambda>e. list_all (\<lambda>j. contains m j) (snd e)) m"

text \<open>
  One round of the loop with unique images when \<open>build_temp_cluster\<close> does not
  throw.
\<close>

definition cluster_entry_unique ::
  "similarities \<Rightarrow> nat \<times> nat list \<Rightarrow> nat list list \<times> nat list \<Rightarrow> nat list list \<times> nat list" where
  "cluster_entry_unique m i state =
     (if snd i = [] then (fst state, insort_insert (fst i) (snd state))
      else (unify_temp_cluster (build_temp_cluster [fst i] m (fst i)) (fst state), snd state))"

text \<open>
  The stored edges of an adjacency map.
\<close>

definition edges :: "similarities \<Rightarrow> (nat \<times> nat) set" where
  "edges m = {(i, j). j \<in> set (neighbours m i)}"

text \<open>
  Clusters that are components of the stored edges, each the component of an id
  with a neighbour, no component twice.
\<close>

definition component_clusters :: "similarities \<Rightarrow> nat list list \<Rightarrow> bool" where
  "component_clusters m cs \<longleftrightarrow>
     (\<forall>c \<in> set cs. \<exists>k. neighbours m k \<noteq> [] \<and> set c = (edges m)\<^sup>* `` {k})
     \<and> distinct (map set cs)"

text \<open>
  The similarity relation on ids: two different ids with a hash whose distance, the
  lower id first, is within the threshold.
\<close>

definition similar_ids :: "('img, 'h) hasher \<Rightarrow> string list \<Rightarrow> real \<Rightarrow> (nat \<times> nat) set" where
  "similar_ids H file_list threshold =
     {(i, j). (i < j \<and> j < length file_list
                \<and> similar_pair H (map (hash_of H) file_list) threshold i j)
            \<or> (j < i \<and> i < length file_list
                \<and> similar_pair H (map (hash_of H) file_list) threshold j i)}"

section \<open>An example hasher\<close>

text \<open>
  The closed instances below run the programs on files whose decoded image is the
  path itself, a string of binary digits; the empty path does not decode. The
  fingerprint is the image and the distance is the Hamming distance, which is what
  \<open>PHash::compare\<close> computes on its 64-bit hashes.
\<close>

definition hamming :: "string \<Rightarrow> string \<Rightarrow> real" where
  "hamming a b = real (length (filter (\<lambda>p. fst p \<noteq> snd p) (zip a b)))"

definition bit_hasher :: "(string, string) hasher" where
  "bit_hasher =
     \<lparr>imread = (\<lambda>path. if path = [] then None else Some path),
      compute = (\<lambda>image. image),
      compare = hamming\<rparr>"

text \<open>
  An example of \<open>std::stod\<close> on the few strings the instances use; it throws on every
  other string.
\<close>

definition example_stod :: "string \<Rightarrow> real option" where
  "example_stod s =
     (if s = ''0.2'' then Some 0.2
      else if s = ''1'' then Some 1
      else if s = ''2'' then Some 2
      else if s = ''3'' then Some 3
      else None)"

chapter \<open>Lemmas\<close>

section \<open>Maps and sets in iteration order\<close>

lemma keys_ascending_Nil [simp]: "keys_ascending []"
  by (simp add: keys_ascending_def)

lemma keys_ascending_Cons:
  "keys_ascending (e # m) \<longleftrightarrow> (\<forall>k \<in> fst ` set m. fst e < k) \<and> keys_ascending m"
  by (auto simp: keys_ascending_def)

lemma keys_ascending_distinct: "keys_ascending m \<Longrightarrow> distinct (map fst m)"
  by (simp add: keys_ascending_def strict_sorted_iff)

lemma keys_ascending_sorted: "keys_ascending m \<Longrightarrow> sorted (map fst m)"
  by (simp add: keys_ascending_def strict_sorted_iff)

lemma map_of_None_iff: "map_of m k = None \<longleftrightarrow> k \<notin> fst ` set m"
  by (simp add: map_of_eq_None_iff)

lemma sorted_wrt_insort_insert:
  "sorted_wrt (<) (ns :: nat list) \<Longrightarrow> sorted_wrt (<) (insort_insert x ns)"
  by (simp add: strict_sorted_iff sorted_insort_insert distinct_insort_insert)

lemma keys_subscript_emplace:
  "fst ` set (subscript_emplace k x m) = insert k (fst ` set m)"
proof (induction m)
  case Nil
  show ?case
    by simp
next
  case (Cons e m)
  obtain k' s where e: "e = (k', s)"
    by (cases e)
  from Cons show ?case
    unfolding e by (cases "k < k'"; cases "k = k'") (simp_all add: insert_commute)
qed

lemma keys_ascending_subscript_emplace:
  "keys_ascending m \<Longrightarrow> keys_ascending (subscript_emplace k x m)"
proof (induction m)
  case Nil
  show ?case
    by (simp add: keys_ascending_def)
next
  case (Cons e m)
  obtain k' s where e: "e = (k', s)"
    by (cases e)
  from Cons show ?case
    unfolding e by (auto simp: keys_ascending_Cons keys_subscript_emplace)
qed

lemma sets_ascending_subscript_emplace:
  "sets_ascending m \<Longrightarrow> sets_ascending (subscript_emplace k x m)"
  by (induction m) (auto simp: sets_ascending_def sorted_wrt_insort_insert)

lemma map_of_subscript_emplace:
  "keys_ascending m \<Longrightarrow>
     map_of (subscript_emplace k x m) k' =
       (if k' = k then Some (insort_insert x (neighbours m k)) else map_of m k')"
proof (induction m)
  case Nil
  show ?case
    by (simp add: neighbours_def insort_insert_key_def)
next
  case (Cons e m)
  obtain k0 s where e: "e = (k0, s)"
    by (cases e)
  from Cons.prems have asc: "keys_ascending m" and lt: "\<forall>q \<in> fst ` set m. k0 < q"
    by (auto simp: keys_ascending_Cons e)
  show ?case
  proof (cases "k < k0")
    case True
    with lt have "map_of m k = None"
      by (force simp: map_of_None_iff)
    with True show ?thesis
      by (auto simp: e neighbours_def insort_insert_key_def)
  next
    case False
    with Cons.IH [OF asc] show ?thesis
      by (auto simp: e neighbours_def)
  qed
qed

lemma neighbours_subscript_emplace:
  assumes "keys_ascending m"
  shows "set (neighbours (subscript_emplace k x m) k') =
       (if k' = k then insert x (set (neighbours m k)) else set (neighbours m k'))"
proof -
  have "neighbours (subscript_emplace k x m) k' =
      (if k' = k then insort_insert x (neighbours m k) else neighbours m k')"
    unfolding neighbours_def [of "subscript_emplace k x m"] map_of_subscript_emplace [OF assms]
    by (simp add: neighbours_def)
  then show ?thesis
    by (simp add: set_insort_insert)
qed

text \<open>On a map in iteration order the locked section is \<open>image_similarities[i].emplace(j)\<close>.\<close>

lemma insert_similar_subscript_emplace:
  "keys_ascending m \<Longrightarrow> insert_similar i j m = subscript_emplace i j m"
proof (induction m)
  case Nil
  show ?case
    by (simp add: insert_similar_def contains_def insort_insert_key_def)
next
  case (Cons e m)
  obtain k0 s where e: "e = (k0, s)"
    by (cases e)
  from Cons.prems have asc: "keys_ascending m" and lt: "\<forall>q \<in> fst ` set m. k0 < q"
    by (auto simp: keys_ascending_Cons e)
  show ?case
  proof (cases "i < k0")
    case True
    with lt have "map_of m i = None"
      by (force simp: map_of_None_iff)
    with True show ?thesis
      by (simp add: e insert_similar_def contains_def insort_insert_key_def)
  next
    case False
    with Cons.IH [OF asc] show ?thesis
      by (auto simp: e insert_similar_def contains_def)
  qed
qed

text \<open>A map is determined by its keys and the elements of its sets.\<close>

lemma ascending_map_unique:
  assumes "keys_ascending m1" and "keys_ascending m2" and "map_of m1 = map_of m2"
  shows "m1 = m2"
proof -
  have d1: "distinct (map fst m1)" and d2: "distinct (map fst m2)"
    using assms by (simp_all add: keys_ascending_distinct)
  then have s: "set m1 = set m2"
    using assms(3) by (simp add: map_of_inject_set)
  have "inj_on fst (set m1 \<union> set m2)"
    using d1 s by (simp add: distinct_map)
  then show ?thesis
    using assms(1,2) d1 d2 s
    by (intro map_sorted_distinct_set_unique [of fst]) (simp_all add: keys_ascending_sorted)
qed

lemma sets_ascending_map_of:
  "sets_ascending m \<Longrightarrow> map_of m k = Some ns \<Longrightarrow> sorted_wrt (<) ns"
  by (auto simp: sets_ascending_def list_all_iff dest!: map_of_SomeD)

lemma similarities_unique_form:
  assumes "keys_ascending m1" "sets_ascending m1" "keys_ascending m2" "sets_ascending m2"
    and keys: "fst ` set m1 = fst ` set m2"
    and nbs: "\<And>k. set (neighbours m1 k) = set (neighbours m2 k)"
  shows "m1 = m2"
proof (rule ascending_map_unique)
  show "map_of m1 = map_of m2"
  proof
    fix k
    show "map_of m1 k = map_of m2 k"
    proof (cases "k \<in> fst ` set m1")
      case False
      with keys have "map_of m1 k = None" and "map_of m2 k = None"
        by (simp_all add: map_of_None_iff)
      then show ?thesis
        by simp
    next
      case True
      with keys obtain n1 n2 where 1: "map_of m1 k = Some n1" and 2: "map_of m2 k = Some n2"
        by (metis map_of_None_iff not_Some_eq)
      from nbs [of k] 1 2 have "set n1 = set n2"
        by (simp add: neighbours_def)
      moreover have "sorted_wrt (<) n1" "sorted_wrt (<) n2"
        using assms(2,4) 1 2 by (auto dest: sets_ascending_map_of)
      ultimately have "n1 = n2"
        by (intro sorted_distinct_set_unique) (simp_all add: strict_sorted_iff)
      with 1 2 show ?thesis
        by simp
    qed
  qed
qed fact+

section \<open>The comparison phase\<close>

text \<open>A worker is the sequence of its locked sections.\<close>

lemma fold_concat_map:
  "fold f (concat (map g xs)) s = fold (\<lambda>x. fold f (g x)) xs s"
  by (induction xs arbitrary: s) simp_all

lemma apply_sections_append:
  "apply_sections (ps @ qs) m = apply_sections qs (apply_sections ps m)"
  by (simp add: apply_sections_def)

lemma apply_sections_ascending:
  "keys_ascending m \<Longrightarrow> keys_ascending (apply_sections ps m)"
proof (induction ps arbitrary: m)
  case Nil
  then show ?case
    by (simp add: apply_sections_def)
next
  case (Cons p ps)
  from Cons.prems have "keys_ascending (insert_similar (fst p) (snd p) m)"
    by (simp add: insert_similar_subscript_emplace keys_ascending_subscript_emplace)
  from Cons.IH [OF this] show ?case
    by (simp add: apply_sections_def)
qed

lemma apply_sections_sets_ascending:
  "keys_ascending m \<Longrightarrow> sets_ascending m \<Longrightarrow> sets_ascending (apply_sections ps m)"
proof (induction ps arbitrary: m)
  case Nil
  then show ?case
    by (simp add: apply_sections_def)
next
  case (Cons p ps)
  from Cons.prems have "keys_ascending (insert_similar (fst p) (snd p) m)"
    and "sets_ascending (insert_similar (fst p) (snd p) m)"
    by (simp_all add: insert_similar_subscript_emplace keys_ascending_subscript_emplace
        sets_ascending_subscript_emplace)
  from Cons.IH [OF this] show ?case
    by (simp add: apply_sections_def)
qed

lemma apply_sections_keys:
  "keys_ascending m \<Longrightarrow> fst ` set (apply_sections ps m) = fst ` set m \<union> fst ` set ps"
proof (induction ps arbitrary: m)
  case Nil
  then show ?case
    by (simp add: apply_sections_def)
next
  case (Cons p ps)
  from Cons.prems have "keys_ascending (insert_similar (fst p) (snd p) m)"
    by (simp add: insert_similar_subscript_emplace keys_ascending_subscript_emplace)
  from Cons.IH [OF this] Cons.prems show ?case
    by (simp add: apply_sections_def insert_similar_subscript_emplace keys_subscript_emplace)
qed

lemma apply_sections_neighbours:
  "keys_ascending m \<Longrightarrow>
     set (neighbours (apply_sections ps m) k) = set (neighbours m k) \<union> {j. (k, j) \<in> set ps}"
proof (induction ps arbitrary: m)
  case Nil
  then show ?case
    by (simp add: apply_sections_def)
next
  case (Cons p ps)
  from Cons.prems have "keys_ascending (insert_similar (fst p) (snd p) m)"
    by (simp add: insert_similar_subscript_emplace keys_ascending_subscript_emplace)
  from Cons.IH [OF this] Cons.prems show ?case
    by (cases p)
      (auto simp: apply_sections_def insert_similar_subscript_emplace
        neighbours_subscript_emplace)
qed

lemma calculate_similar_pairs_sections:
  "calculate_similar_pairs H hash_list m threshold thread_id num_threads =
     apply_sections (similar_pair_sections H hash_list threshold thread_id num_threads) m"
proof -
  let ?ins = "\<lambda>p. insert_similar (fst p) (snd p)"
  let ?row = "\<lambda>i. case hash_list ! i of
           None \<Rightarrow> []
         | Some hi \<Rightarrow>
             concat (map (\<lambda>j.
                 case hash_list ! j of
                   None \<Rightarrow> []
                 | Some hj \<Rightarrow> if compare H hi hj \<le> threshold then [(i, j)] else [])
               [i + 1..<length hash_list])"
  have inner: "fold (\<lambda>j sims'.
          case hash_list ! j of
            None \<Rightarrow> sims'
          | Some hj \<Rightarrow> if compare H hi hj \<le> threshold then insert_similar i j sims' else sims')
        js s =
      fold ?ins (concat (map (\<lambda>j.
          case hash_list ! j of
            None \<Rightarrow> []
          | Some hj \<Rightarrow> if compare H hi hj \<le> threshold then [(i, j)] else []) js)) s"
    for hi i js s
    by (induction js arbitrary: s) (simp_all split: option.splits)
  have "apply_sections (similar_pair_sections H hash_list threshold thread_id num_threads) m =
      fold (\<lambda>i. if i mod num_threads = thread_id then fold ?ins (?row i) else id)
        [0..<length hash_list] m"
    unfolding apply_sections_def similar_pair_sections_def fold_concat_map fold_filter ..
  also have "\<dots> = calculate_similar_pairs H hash_list m threshold thread_id num_threads"
    unfolding calculate_similar_pairs_def
    by (intro fold_cong refl ext) (simp add: inner split: option.splits)
  finally show ?thesis
    by simp
qed

lemma set_similar_pair_sections:
  "set (similar_pair_sections H hash_list threshold thread_id num_threads) =
     {(i, j). i < j \<and> j < length hash_list \<and> i mod num_threads = thread_id
        \<and> similar_pair H hash_list threshold i j}"
proof -
  have cols: "concat (map (\<lambda>j.
          case hash_list ! j of
            None \<Rightarrow> []
          | Some hj \<Rightarrow> if compare H hi hj \<le> threshold then [(i, j)] else []) js) =
      map (Pair i) (filter (\<lambda>j.
          case hash_list ! j of None \<Rightarrow> False | Some hj \<Rightarrow> compare H hi hj \<le> threshold) js)"
    for hi i js
    by (induction js) (simp_all split: option.splits)
  have row: "set (case hash_list ! i of
           None \<Rightarrow> []
         | Some hi \<Rightarrow>
             concat (map (\<lambda>j.
                 case hash_list ! j of
                   None \<Rightarrow> []
                 | Some hj \<Rightarrow> if compare H hi hj \<le> threshold then [(i, j)] else [])
               [i + 1..<length hash_list])) =
      {(i', j). i' = i \<and> i < j \<and> j < length hash_list \<and> similar_pair H hash_list threshold i j}"
    for i
    unfolding cols by (cases "hash_list ! i") (auto simp: similar_pair_def)
  show ?thesis
    unfolding similar_pair_sections_def set_concat set_map image_image row
    by auto
qed

lemma similarity_phase_sections:
  "similarity_phase H num_threads threshold hash_list =
     apply_sections
       (concat (map (\<lambda>t. similar_pair_sections H hash_list threshold t num_threads)
          [0..<num_threads])) []"
  unfolding similarity_phase_def calculate_similar_pairs_sections apply_sections_def
    fold_concat_map ..

lemma set_all_sections:
  assumes "0 < num_threads"
  shows "set (concat (map (\<lambda>t. similar_pair_sections H hash_list threshold t num_threads)
          [0..<num_threads])) =
     {(i, j). i < j \<and> j < length hash_list \<and> similar_pair H hash_list threshold i j}"
  using assms by (auto simp: set_similar_pair_sections)

lemma sets_ascending_Nil [simp]: "sets_ascending []"
  by (simp add: sets_ascending_def)

lemma neighbours_Nil [simp]: "neighbours [] i = []"
  by (simp add: neighbours_def)

lemma apply_sections_set_cong:
  assumes "set ps = set qs"
  shows "apply_sections ps [] = apply_sections qs []"
proof (rule similarities_unique_form)
  show "fst ` set (apply_sections ps []) = fst ` set (apply_sections qs [])"
    using assms by (simp add: apply_sections_keys)
  show "set (neighbours (apply_sections ps []) k) = set (neighbours (apply_sections qs []) k)" for k
    using assms by (simp add: apply_sections_neighbours)
qed (simp_all add: apply_sections_ascending apply_sections_sets_ascending)

lemma similarity_phase_ascending:
  "keys_ascending (similarity_phase H num_threads threshold hash_list)"
  "sets_ascending (similarity_phase H num_threads threshold hash_list)"
  by (simp_all add: similarity_phase_sections apply_sections_ascending
      apply_sections_sets_ascending)

lemma similarity_phase_neighbours:
  assumes "0 < num_threads"
  shows "set (neighbours (similarity_phase H num_threads threshold hash_list) i) =
     {j. i < j \<and> j < length hash_list \<and> similar_pair H hash_list threshold i j}"
  unfolding similarity_phase_sections apply_sections_neighbours [OF keys_ascending_Nil]
    set_all_sections [OF assms]
  by simp

lemma similarity_phase_keys:
  assumes "0 < num_threads"
  shows "fst ` set (similarity_phase H num_threads threshold hash_list) =
     {i. \<exists>j. i < j \<and> j < length hash_list \<and> similar_pair H hash_list threshold i j}"
  unfolding similarity_phase_sections apply_sections_keys [OF keys_ascending_Nil]
    set_all_sections [OF assms]
  by force

subsection \<open>Schedules\<close>

text \<open>A schedule only permutes the steps of the workers.\<close>

lemma set_concat_list_update:
  assumes "k < length traces" and "traces ! k = x # t"
  shows "set (concat traces) = insert x (set (concat (traces[k := t])))"
proof -
  define A B where "A = take k traces" and "B = drop (Suc k) traces"
  have 1: "traces = A @ (x # t) # B"
    unfolding A_def B_def using assms by (metis id_take_nth_drop)
  have 2: "traces[k := t] = A @ t # B"
    unfolding A_def B_def using assms(1) by (rule upd_conv_take_nth_drop)
  have "set (concat (A @ (x # t) # B)) = insert x (set (concat (A @ t # B)))"
    by auto
  then show ?thesis
    unfolding 2 by (subst 1) simp
qed

lemma interleave_set:
  "interleave schedule traces = Some ops \<Longrightarrow> set ops = set (concat traces)"
proof (induction schedule arbitrary: traces ops)
  case Nil
  then show ?case
    by (auto simp: list_all_iff split: if_splits)
next
  case (Cons k schedule)
  from Cons.prems obtain x t ops' where k: "k < length traces" and tk: "traces ! k = x # t"
    and rest: "interleave schedule (traces[k := t]) = Some ops'" and ops: "ops = x # ops'"
    by (auto split: if_splits list.splits)
  from Cons.IH [OF rest] have "set ops' = set (concat (traces[k := t]))" .
  with set_concat_list_update [OF k tk] ops show ?case
    by simp
qed

lemma scheduled_similarity_phase_eq:
  assumes "0 < num_threads"
    and "scheduled_similarity_phase H num_threads schedule threshold hash_list = Some g"
  shows "g = similarity_phase H num_threads threshold hash_list"
proof -
  from assms(2) obtain ps where
    ps: "interleave schedule
          (map (\<lambda>t. similar_pair_sections H hash_list threshold t num_threads) [0..<num_threads])
        = Some ps"
    and g: "g = apply_sections ps []"
    by (auto simp: scheduled_similarity_phase_def)
  from interleave_set [OF ps] show ?thesis
    unfolding g similarity_phase_sections by (rule apply_sections_set_cong)
qed

subsection \<open>The hash phase\<close>

lemma calculate_hash_values_writes:
  "calculate_hash_values H file_list hash_list thread_id num_threads =
     apply_writes (hash_writes H file_list thread_id num_threads) hash_list"
  unfolding calculate_hash_values_def apply_writes_def hash_writes_def fold_map fold_filter
  by (intro fold_cong refl ext) (simp add: comp_def)

lemma length_apply_writes [simp]: "length (apply_writes ws hl) = length hl"
  unfolding apply_writes_def by (induction ws arbitrary: hl) simp_all

lemma apply_writes_nth:
  assumes "\<And>w. w \<in> set ws \<Longrightarrow> snd w = f (fst w)" and "i < length hl"
  shows "apply_writes ws hl ! i = (if i \<in> fst ` set ws then f i else hl ! i)"
  using assms
proof (induction ws arbitrary: hl)
  case Nil
  then show ?case
    by (simp add: apply_writes_def)
next
  case (Cons w ws)
  have "apply_writes (w # ws) hl = apply_writes ws (hl[fst w := snd w])"
    by (simp add: apply_writes_def)
  moreover have "apply_writes ws (hl[fst w := snd w]) ! i =
      (if i \<in> fst ` set ws then f i else hl[fst w := snd w] ! i)"
    using Cons.prems by (intro Cons.IH) simp_all
  ultimately show ?case
    using Cons.prems by (auto simp: nth_list_update)
qed

lemma set_all_hash_writes:
  assumes "0 < num_threads"
  shows "set (concat (map (\<lambda>t. hash_writes H file_list t num_threads) [0..<num_threads])) =
     (\<lambda>i. (i, hash_of H (file_list ! i))) ` {i. i < length file_list}"
proof -
  have "\<exists>t \<in> {0..<num_threads}. i mod num_threads = t" for i
    using assms by simp
  then show ?thesis
    by (auto simp: hash_writes_def image_iff)
qed

lemma apply_all_hash_writes:
  assumes "0 < num_threads"
    and "set ws = set (concat (map (\<lambda>t. hash_writes H file_list t num_threads) [0..<num_threads]))"
  shows "apply_writes ws (replicate (length file_list) None) = map (hash_of H) file_list"
proof (rule nth_equalityI)
  show "length (apply_writes ws (replicate (length file_list) None)) =
      length (map (hash_of H) file_list)"
    by simp
next
  fix i
  assume "i < length (apply_writes ws (replicate (length file_list) None))"
  then have i: "i < length file_list"
    by simp
  have ws: "set ws = (\<lambda>i. (i, hash_of H (file_list ! i))) ` {i. i < length file_list}"
    using assms(2) set_all_hash_writes [OF assms(1)] by simp
  then have "apply_writes ws (replicate (length file_list) None) ! i =
      (if i \<in> fst ` set ws then hash_of H (file_list ! i) else replicate (length file_list) None ! i)"
    using i by (intro apply_writes_nth) auto
  moreover have "i \<in> fst ` set ws"
    using i ws by force
  ultimately show "apply_writes ws (replicate (length file_list) None) ! i =
      map (hash_of H) file_list ! i"
    using i by simp
qed

lemma hash_phase_eq:
  assumes "0 < num_threads"
  shows "hash_phase H num_threads file_list = map (hash_of H) file_list"
proof -
  have "hash_phase H num_threads file_list =
      apply_writes (concat (map (\<lambda>t. hash_writes H file_list t num_threads) [0..<num_threads]))
        (replicate (length file_list) None)"
    unfolding hash_phase_def calculate_hash_values_writes apply_writes_def fold_concat_map ..
  then show ?thesis
    using apply_all_hash_writes [OF assms refl] by simp
qed

lemma scheduled_hash_phase_eq:
  assumes "0 < num_threads"
    and "scheduled_hash_phase H num_threads schedule file_list = Some hl"
  shows "hl = hash_phase H num_threads file_list"
proof -
  from assms(2) obtain ws where
    ws: "interleave schedule (map (\<lambda>t. hash_writes H file_list t num_threads) [0..<num_threads])
        = Some ws"
    and hl: "hl = apply_writes ws (replicate (length file_list) None)"
    by (auto simp: scheduled_hash_phase_def)
  from apply_all_hash_writes [OF assms(1) interleave_set [OF ws]] show ?thesis
    by (simp add: hl hash_phase_eq [OF assms(1)])
qed

section \<open>The hash phase into a map\<close>

lemma keys_emplace: "fst ` set (emplace k v m) = insert k (fst ` set m)"
proof (induction m)
  case Nil
  show ?case
    by simp
next
  case (Cons e m)
  obtain k' s where e: "e = (k', s)"
    by (cases e)
  from Cons show ?case
    unfolding e by (cases "k < k'"; cases "k = k'") (simp_all add: insert_commute)
qed

lemma keys_ascending_emplace: "keys_ascending m \<Longrightarrow> keys_ascending (emplace k v m)"
proof (induction m)
  case Nil
  show ?case
    by (simp add: keys_ascending_def)
next
  case (Cons e m)
  obtain k' s where e: "e = (k', s)"
    by (cases e)
  from Cons show ?case
    unfolding e by (auto simp: keys_ascending_Cons keys_emplace)
qed

lemma map_of_emplace:
  "keys_ascending m \<Longrightarrow>
     map_of (emplace k v m) k' =
       (if k' = k \<and> map_of m k = None then Some v else map_of m k')"
proof (induction m)
  case Nil
  show ?case
    by simp
next
  case (Cons e m)
  obtain k0 s where e: "e = (k0, s)"
    by (cases e)
  from Cons.prems have asc: "keys_ascending m" and lt: "\<forall>q \<in> fst ` set m. k0 < q"
    by (auto simp: keys_ascending_Cons e)
  show ?case
  proof (cases "k < k0")
    case True
    with lt have "map_of m k = None"
      by (force simp: map_of_None_iff)
    with True show ?thesis
      by (auto simp: e)
  next
    case False
    with Cons.IH [OF asc] show ?thesis
      by (auto simp: e)
  qed
qed

lemma hash_of_imread:
  "hash_of H file = map_option (compute H) (imread H file)"
  by (simp add: hash_of_def split: option.splits)

lemma calculate_hash_values_map_fold:
  assumes "keys_ascending hl"
  shows "keys_ascending
      (fold (\<lambda>i hl. if i mod num_threads \<noteq> thread_id then hl
                   else case imread H (file_list ! i) of
                     None \<Rightarrow> hl
                   | Some current_image \<Rightarrow> emplace i (compute H current_image) hl) xs hl)
    \<and> map_of
      (fold (\<lambda>i hl. if i mod num_threads \<noteq> thread_id then hl
                   else case imread H (file_list ! i) of
                     None \<Rightarrow> hl
                   | Some current_image \<Rightarrow> emplace i (compute H current_image) hl) xs hl) k =
      (case map_of hl k of
         Some h \<Rightarrow> Some h
       | None \<Rightarrow> if k \<in> set xs \<and> k mod num_threads = thread_id
                 then hash_of H (file_list ! k) else None)"
  using assms
proof (induction xs arbitrary: hl)
  case Nil
  then show ?case
    by (simp split: option.splits)
next
  case (Cons i xs)
  let ?hl = "if i mod num_threads \<noteq> thread_id then hl
      else case imread H (file_list ! i) of
        None \<Rightarrow> hl
      | Some current_image \<Rightarrow> emplace i (compute H current_image) hl"
  have asc: "keys_ascending ?hl"
    using Cons.prems by (simp add: keys_ascending_emplace split: option.splits)
  have look: "map_of ?hl k =
      (case map_of hl k of
         Some h \<Rightarrow> Some h
       | None \<Rightarrow> if k = i \<and> k mod num_threads = thread_id
                 then hash_of H (file_list ! k) else None)"
    using Cons.prems
    by (auto simp: map_of_emplace hash_of_imread split: option.splits)
  from Cons.IH [OF asc] show ?case
    by (auto simp: look split: option.splits)
qed

lemma calculate_hash_values_map_ascending:
  "keys_ascending hl \<Longrightarrow>
     keys_ascending (calculate_hash_values_map H file_list hl thread_id num_threads)"
  unfolding calculate_hash_values_map_def
  using calculate_hash_values_map_fold by blast

lemma map_of_calculate_hash_values_map:
  "keys_ascending hl \<Longrightarrow>
     map_of (calculate_hash_values_map H file_list hl thread_id num_threads) k =
       (case map_of hl k of
          Some h \<Rightarrow> Some h
        | None \<Rightarrow> if k < length file_list \<and> k mod num_threads = thread_id
                  then hash_of H (file_list ! k) else None)"
  unfolding calculate_hash_values_map_def
  using calculate_hash_values_map_fold [of hl num_threads thread_id H file_list
      "[0..<length file_list]" k]
  by (auto split: option.splits)

lemma hash_map_threads:
  "keys_ascending hl \<Longrightarrow>
     keys_ascending
       (fold (\<lambda>t hl. calculate_hash_values_map H file_list hl t num_threads) ts hl)
     \<and> map_of (fold (\<lambda>t hl. calculate_hash_values_map H file_list hl t num_threads) ts hl) k =
       (case map_of hl k of
          Some h \<Rightarrow> Some h
        | None \<Rightarrow> if k < length file_list \<and> k mod num_threads \<in> set ts
                  then hash_of H (file_list ! k) else None)"
proof (induction ts arbitrary: hl)
  case Nil
  then show ?case
    by (simp split: option.splits)
next
  case (Cons t ts)
  from Cons.prems have asc:
    "keys_ascending (calculate_hash_values_map H file_list hl t num_threads)"
    by (rule calculate_hash_values_map_ascending)
  from Cons.IH [OF asc] Cons.prems show ?case
    by (auto simp: map_of_calculate_hash_values_map split: option.splits)
qed

lemma keys_ascending_valid_hashes: "keys_ascending (valid_hashes H file_list)"
proof -
  have "map fst (concat (map (\<lambda>i. case hash_of H (file_list ! i) of
        None \<Rightarrow> [] | Some h \<Rightarrow> [(i, h)]) xs)) =
      filter (\<lambda>i. hash_of H (file_list ! i) \<noteq> None) xs" for xs
    by (induction xs) (auto split: option.splits)
  then show ?thesis
    by (simp add: keys_ascending_def valid_hashes_def sorted_wrt_filter)
qed

lemma set_valid_hashes:
  "set (valid_hashes H file_list) =
     {(i, h). i < length file_list \<and> hash_of H (file_list ! i) = Some h}"
  by (auto simp: valid_hashes_def split: option.splits)

lemma map_of_valid_hashes:
  "map_of (valid_hashes H file_list) k =
     (if k < length file_list then hash_of H (file_list ! k) else None)"
proof (cases "k < length file_list \<and> hash_of H (file_list ! k) \<noteq> None")
  case True
  then obtain h where h: "hash_of H (file_list ! k) = Some h"
    by auto
  with True have "(k, h) \<in> set (valid_hashes H file_list)"
    by (simp add: set_valid_hashes)
  with keys_ascending_distinct [OF keys_ascending_valid_hashes] have
    "map_of (valid_hashes H file_list) k = Some h"
    by (rule map_of_is_SomeI)
  with True h show ?thesis
    by simp
next
  case False
  then have "k \<notin> fst ` set (valid_hashes H file_list)"
    by (auto simp: set_valid_hashes)
  then have "map_of (valid_hashes H file_list) k = None"
    by (simp add: map_of_None_iff)
  with False show ?thesis
    by auto
qed

lemma hash_map_phase_eq:
  assumes "0 < num_threads"
  shows "hash_map_phase H num_threads file_list = valid_hashes H file_list"
proof (rule ascending_map_unique)
  show "keys_ascending (hash_map_phase H num_threads file_list)"
    unfolding hash_map_phase_def using hash_map_threads [OF keys_ascending_Nil] by blast
  show "keys_ascending (valid_hashes H file_list)"
    by (rule keys_ascending_valid_hashes)
  show "map_of (hash_map_phase H num_threads file_list) = map_of (valid_hashes H file_list)"
  proof
    fix k
    have "k mod num_threads \<in> set [0..<num_threads]"
      using assms by simp
    then show "map_of (hash_map_phase H num_threads file_list) k =
        map_of (valid_hashes H file_list) k"
      unfolding hash_map_phase_def map_of_valid_hashes
      using hash_map_threads [OF keys_ascending_Nil, of H file_list num_threads "[0..<num_threads]" k]
      by simp
  qed
qed

section \<open>The adjacency map built from the map of distances\<close>

lemma keys_subscript_assign:
  "fst ` set (subscript_assign k v m) = insert k (fst ` set m)"
proof (induction m)
  case Nil
  show ?case
    by simp
next
  case (Cons e m)
  obtain k' s where e: "e = (k', s)"
    by (cases e)
  from Cons show ?case
    unfolding e by (cases "k < k'"; cases "k = k'") (simp_all add: insert_commute)
qed

lemma keys_ascending_subscript_assign:
  "keys_ascending m \<Longrightarrow> keys_ascending (subscript_assign k v m)"
proof (induction m)
  case Nil
  show ?case
    by (simp add: keys_ascending_def)
next
  case (Cons e m)
  obtain k' s where e: "e = (k', s)"
    by (cases e)
  from Cons show ?case
    unfolding e by (auto simp: keys_ascending_Cons keys_subscript_assign)
qed

lemma map_of_subscript_assign:
  "keys_ascending m \<Longrightarrow> map_of (subscript_assign k v m) = (map_of m)(k \<mapsto> v)"
proof (induction m)
  case Nil
  show ?case
    by simp
next
  case (Cons e m)
  obtain k0 s where e: "e = (k0, s)"
    by (cases e)
  from Cons.prems have asc: "keys_ascending m"
    by (auto simp: keys_ascending_Cons e)
  with Cons.IH show ?case
    by (auto simp: e)
qed

text \<open>A sequence of assignments whose values are a function of the key.\<close>

lemma fold_subscript_assign:
  assumes "keys_ascending m" and "\<And>a. a \<in> set as \<Longrightarrow> snd a = F (fst a)"
  shows "keys_ascending (fold (\<lambda>a. subscript_assign (fst a) (snd a)) as m)
    \<and> map_of (fold (\<lambda>a. subscript_assign (fst a) (snd a)) as m) k =
        (if k \<in> fst ` set as then Some (F k) else map_of m k)"
  using assms
proof (induction as arbitrary: m)
  case Nil
  then show ?case
    by simp
next
  case (Cons a as)
  have asc: "keys_ascending (subscript_assign (fst a) (snd a) m)"
    using Cons.prems(1) by (rule keys_ascending_subscript_assign)
  have "snd a = F (fst a)"
    using Cons.prems(2) by simp
  with Cons.IH [OF asc] Cons.prems show ?case
    by (auto simp: map_of_subscript_assign)
qed

lemma set_ordered_pairs:
  "keys_ascending hv \<Longrightarrow>
     set (ordered_pairs hv) = {(x, y). x \<in> set hv \<and> y \<in> set hv \<and> fst x < fst y}"
proof (induction hv)
  case Nil
  show ?case
    by simp
next
  case (Cons e hv)
  from Cons.prems have asc: "keys_ascending hv" and lt: "\<forall>k \<in> fst ` set hv. fst e < k"
    by (simp_all add: keys_ascending_Cons)
  from lt have "\<And>y. y \<in> set hv \<Longrightarrow> fst e < fst y"
    by simp
  moreover from lt have "\<And>x. x \<in> set hv \<Longrightarrow> \<not> fst x < fst e"
    by (meson imageI not_less_iff_gr_or_eq)
  ultimately show ?case
    unfolding ordered_pairs.simps set_append Cons.IH [OF asc]
    by auto
qed

lemma image_deltas_of_fold:
  "image_deltas_of H hv d =
     fold (\<lambda>a. subscript_assign (fst a) (snd a))
       (map (\<lambda>p. ((fst (fst p), fst (snd p)), compare H (snd (fst p)) (snd (snd p))))
          (ordered_pairs hv)) d"
proof (induction hv arbitrary: d)
  case Nil
  show ?case
    by simp
next
  case (Cons it1 hv)
  show ?case
    by (simp add: Cons.IH fold_map comp_def)
qed

lemma similar_step_fold:
  assumes "keys_ascending m" and "sets_ascending m"
  shows "keys_ascending
      (fold (\<lambda>i sims.
         if snd i \<le> threshold
         then subscript_emplace (snd (fst i)) (fst (fst i))
                (subscript_emplace (fst (fst i)) (snd (fst i)) sims)
         else sims) es m)
    \<and> sets_ascending
      (fold (\<lambda>i sims.
         if snd i \<le> threshold
         then subscript_emplace (snd (fst i)) (fst (fst i))
                (subscript_emplace (fst (fst i)) (snd (fst i)) sims)
         else sims) es m)
    \<and> fst ` set
      (fold (\<lambda>i sims.
         if snd i \<le> threshold
         then subscript_emplace (snd (fst i)) (fst (fst i))
                (subscript_emplace (fst (fst i)) (snd (fst i)) sims)
         else sims) es m) =
      fst ` set m
        \<union> {a. \<exists>b d. ((a, b), d) \<in> set es \<and> d \<le> threshold}
        \<union> {b. \<exists>a d. ((a, b), d) \<in> set es \<and> d \<le> threshold}
    \<and> set (neighbours
      (fold (\<lambda>i sims.
         if snd i \<le> threshold
         then subscript_emplace (snd (fst i)) (fst (fst i))
                (subscript_emplace (fst (fst i)) (snd (fst i)) sims)
         else sims) es m) k) =
      set (neighbours m k)
        \<union> {b. \<exists>d. ((k, b), d) \<in> set es \<and> d \<le> threshold}
        \<union> {a. \<exists>d. ((a, k), d) \<in> set es \<and> d \<le> threshold}"
  using assms
proof (induction es arbitrary: m)
  case Nil
  then show ?case
    by simp
next
  case (Cons e es)
  obtain a b d where e: "e = ((a, b), d)"
    by (metis surj_pair)
  let ?m = "if d \<le> threshold then subscript_emplace b a (subscript_emplace a b m) else m"
  have asc: "keys_ascending ?m"
    using Cons.prems by (simp add: keys_ascending_subscript_emplace)
  have sets: "sets_ascending ?m"
    using Cons.prems by (simp add: sets_ascending_subscript_emplace)
  have keys: "fst ` set ?m = fst ` set m \<union> (if d \<le> threshold then {a, b} else {})"
    by (auto simp: keys_subscript_emplace)
  have nbs: "set (neighbours ?m k) = set (neighbours m k)
      \<union> (if d \<le> threshold \<and> k = a then {b} else {})
      \<union> (if d \<le> threshold \<and> k = b then {a} else {})"
    using Cons.prems(1)
    by (auto simp: neighbours_subscript_emplace keys_ascending_subscript_emplace)
  from Cons.IH [OF asc sets] show ?case
    unfolding e fold_Cons comp_def fst_conv snd_conv keys nbs
    by (intro conjI; (simp; fail | auto))
qed

lemma empty_sets_fold:
  "keys_ascending (fold (\<lambda>i. subscript_assign (fst i) []) hv ([] :: similarities))"
  "map_of (fold (\<lambda>i. subscript_assign (fst i) []) hv ([] :: similarities)) k =
     (if k \<in> fst ` set hv then Some [] else None)"
proof -
  let ?as = "map (\<lambda>i. (fst i, [] :: nat list)) hv"
  have f: "fold (\<lambda>i. subscript_assign (fst i) []) hv ([] :: similarities) =
      fold (\<lambda>a. subscript_assign (fst a) (snd a)) ?as []"
    by (simp add: fold_map comp_def)
  have vals: "snd a = []" if "a \<in> set ?as" for a
    using that by auto
  have "keys_ascending (fold (\<lambda>a. subscript_assign (fst a) (snd a)) ?as [])
    \<and> map_of (fold (\<lambda>a. subscript_assign (fst a) (snd a)) ?as []) k =
        (if k \<in> fst ` set ?as then Some [] else map_of [] k)"
    using fold_subscript_assign [where F = "\<lambda>_. []" and as = ?as and m = "[]" and k = k,
        OF keys_ascending_Nil vals]
    by simp
  then show "keys_ascending (fold (\<lambda>i. subscript_assign (fst i) []) hv ([] :: similarities))"
    and "map_of (fold (\<lambda>i. subscript_assign (fst i) []) hv ([] :: similarities)) k =
     (if k \<in> fst ` set hv then Some [] else None)"
    unfolding f by (simp_all add: image_image)
qed

lemma empty_sets_keys:
  "fst ` set (fold (\<lambda>i. subscript_assign (fst i) []) hv ([] :: similarities)) = fst ` set hv"
proof -
  have "k \<in> fst ` set (fold (\<lambda>i. subscript_assign (fst i) []) hv ([] :: similarities))
      \<longleftrightarrow> k \<in> fst ` set hv" for k
    using empty_sets_fold(2) [of hv k]
      map_of_None_iff [of "fold (\<lambda>i. subscript_assign (fst i) []) hv []" k]
    by (auto split: if_splits)
  then show ?thesis
    by blast
qed

lemma empty_sets_ascending:
  "sets_ascending (fold (\<lambda>i. subscript_assign (fst i) []) hv [])"
proof -
  have "snd e = []"
    if "e \<in> set (fold (\<lambda>i. subscript_assign (fst i) []) hv ([] :: similarities))" for e
  proof -
    from that have "(fst e, snd e) \<in> set (fold (\<lambda>i. subscript_assign (fst i) []) hv [])"
      by simp
    with keys_ascending_distinct [OF empty_sets_fold(1) [of hv]] have
      "map_of (fold (\<lambda>i. subscript_assign (fst i) []) hv []) (fst e) = Some (snd e)"
      by (rule map_of_is_SomeI)
    then show ?thesis
      by (simp add: empty_sets_fold(2) split: if_splits)
  qed
  then have "sorted_wrt (<) (snd e)"
    if "e \<in> set (fold (\<lambda>i. subscript_assign (fst i) []) hv ([] :: similarities))" for e
    using that by simp
  then show ?thesis
    unfolding sets_ascending_def list_all_iff by blast
qed

lemma empty_sets_neighbours:
  "neighbours (fold (\<lambda>i. subscript_assign (fst i) []) hv ([] :: similarities)) k = []"
  by (simp add: neighbours_def empty_sets_fold(2))

text \<open>The entries of the map of distances.\<close>

lemma set_image_deltas_of:
  "set (image_deltas_of H (valid_hashes H file_list) []) =
     {((i, j), d). i < j \<and> j < length file_list \<and>
        (\<exists>hi hj. hash_of H (file_list ! i) = Some hi \<and> hash_of H (file_list ! j) = Some hj
           \<and> d = compare H hi hj)}"
proof -
  let ?hv = "valid_hashes H file_list"
  let ?as = "map (\<lambda>p. ((fst (fst p), fst (snd p)), compare H (snd (fst p)) (snd (snd p))))
          (ordered_pairs ?hv)"
  let ?F = "\<lambda>k. compare H (the (hash_of H (file_list ! fst k))) (the (hash_of H (file_list ! snd k)))"
  have pairs: "set (ordered_pairs ?hv) =
      {(x, y). x \<in> set ?hv \<and> y \<in> set ?hv \<and> fst x < fst y}"
    by (rule set_ordered_pairs) (rule keys_ascending_valid_hashes)
  have F: "snd a = ?F (fst a)" if "a \<in> set ?as" for a
    using that by (auto simp: pairs set_valid_hashes)
  have keys: "fst ` set ?as =
      {(i, j). i < j \<and> j < length file_list \<and> hash_of H (file_list ! i) \<noteq> None
         \<and> hash_of H (file_list ! j) \<noteq> None}"
    by (force simp: pairs set_valid_hashes image_iff)
  from fold_subscript_assign [of "[]" ?as ?F, OF keys_ascending_Nil F]
  have asc: "keys_ascending (image_deltas_of H ?hv [])"
    and look: "map_of (image_deltas_of H ?hv []) k =
      (if k \<in> fst ` set ?as then Some (?F k) else None)" for k
    unfolding image_deltas_of_fold by simp_all
  have "set (image_deltas_of H ?hv []) = {(k, v). map_of (image_deltas_of H ?hv []) k = Some v}"
    using keys_ascending_distinct [OF asc] by (rule set_map_of_compr)
  then show ?thesis
    unfolding look keys by (auto split: if_splits)
qed

lemma similar_pair_hashes:
  assumes "i < length file_list" and "j < length file_list"
  shows "similar_pair H (map (hash_of H) file_list) threshold i j \<longleftrightarrow>
     (\<exists>hi hj. hash_of H (file_list ! i) = Some hi \<and> hash_of H (file_list ! j) = Some hj
        \<and> compare H hi hj \<le> threshold)"
  using assms by (simp add: similar_pair_def split: option.splits)

lemmas similar_step_ascending = similar_step_fold [THEN conjunct1]

lemmas similar_step_sets_ascending = similar_step_fold [THEN conjunct2, THEN conjunct1]

lemmas similar_step_keys = similar_step_fold [THEN conjunct2, THEN conjunct2, THEN conjunct1]

lemmas similar_step_neighbours = similar_step_fold [THEN conjunct2, THEN conjunct2, THEN conjunct2]

lemma similarities_unique_ascending:
  "keys_ascending (similarities_unique H num_threads threshold file_list)"
  "sets_ascending (similarities_unique H num_threads threshold file_list)"
  unfolding similarities_unique_def delta_similarities_def
  by (rule similar_step_ascending similar_step_sets_ascending, rule empty_sets_fold(1),
      rule empty_sets_ascending)+

lemma similarities_unique_keys:
  assumes "0 < num_threads"
  shows "fst ` set (similarities_unique H num_threads threshold file_list) =
     {i. i < length file_list \<and> hash_of H (file_list ! i) \<noteq> None}"
proof -
  let ?hv = "valid_hashes H file_list"
  have "fst ` set (similarities_unique H num_threads threshold file_list) =
      fst ` set ?hv
        \<union> {a. \<exists>b d. ((a, b), d) \<in> set (image_deltas_of H ?hv []) \<and> d \<le> threshold}
        \<union> {b. \<exists>a d. ((a, b), d) \<in> set (image_deltas_of H ?hv []) \<and> d \<le> threshold}"
    unfolding similarities_unique_def delta_similarities_def hash_map_phase_eq [OF assms]
      similar_step_keys [OF empty_sets_fold(1) empty_sets_ascending] empty_sets_keys ..
  also have "\<dots> = {i. i < length file_list \<and> hash_of H (file_list ! i) \<noteq> None}"
  proof -
    have "{a. \<exists>b d. ((a, b), d) \<in> set (image_deltas_of H ?hv []) \<and> d \<le> threshold}
        \<subseteq> fst ` set ?hv"
      unfolding set_image_deltas_of by (force simp: set_valid_hashes)
    moreover have "{b. \<exists>a d. ((a, b), d) \<in> set (image_deltas_of H ?hv []) \<and> d \<le> threshold}
        \<subseteq> fst ` set ?hv"
      unfolding set_image_deltas_of by (force simp: set_valid_hashes)
    moreover have "fst ` set ?hv = {i. i < length file_list \<and> hash_of H (file_list ! i) \<noteq> None}"
      by (force simp: set_valid_hashes)
    ultimately show ?thesis
      by blast
  qed
  finally show ?thesis .
qed

lemma similarities_unique_neighbours:
  assumes "0 < num_threads"
  shows "set (neighbours (similarities_unique H num_threads threshold file_list) i) =
     {j. i < j \<and> j < length file_list
          \<and> similar_pair H (map (hash_of H) file_list) threshold i j}
     \<union> {j. j < i \<and> i < length file_list
          \<and> similar_pair H (map (hash_of H) file_list) threshold j i}"
proof -
  let ?hv = "valid_hashes H file_list"
  have "set (neighbours (similarities_unique H num_threads threshold file_list) i) =
      set []
      \<union> {b. \<exists>d. ((i, b), d) \<in> set (image_deltas_of H ?hv []) \<and> d \<le> threshold}
      \<union> {a. \<exists>d. ((a, i), d) \<in> set (image_deltas_of H ?hv []) \<and> d \<le> threshold}"
    unfolding similarities_unique_def delta_similarities_def hash_map_phase_eq [OF assms]
      similar_step_neighbours [OF empty_sets_fold(1) empty_sets_ascending] empty_sets_neighbours ..
  moreover have "{b. \<exists>d. ((i, b), d) \<in> set (image_deltas_of H ?hv []) \<and> d \<le> threshold} =
      {j. i < j \<and> j < length file_list
          \<and> similar_pair H (map (hash_of H) file_list) threshold i j}"
    unfolding set_image_deltas_of by (auto simp: similar_pair_hashes)
  moreover have "{a. \<exists>d. ((a, i), d) \<in> set (image_deltas_of H ?hv []) \<and> d \<le> threshold} =
      {j. j < i \<and> i < length file_list
          \<and> similar_pair H (map (hash_of H) file_list) threshold j i}"
    unfolding set_image_deltas_of by (auto simp: similar_pair_hashes)
  ultimately show ?thesis
    by simp
qed

section \<open>The scan of img-search\<close>

lemma within_threshold_iff:
  "within_threshold H threshold file query \<longleftrightarrow>
     (\<exists>h s. hash_of H file = Some h \<and> hash_of H query = Some s \<and> compare H h s \<le> threshold)"
  by (simp add: within_threshold_def split: option.splits)

lemma search_results_row:
  assumes "sorted_wrt (<) (results :: nat list)"
  shows "sorted_wrt (<)
      (fold (\<lambda>it2 results'.
           if compare H h (snd it2) \<le> threshold
           then insort_insert i results' else results') sv results)
    \<and> set (fold (\<lambda>it2 results'.
           if compare H h (snd it2) \<le> threshold
           then insort_insert i results' else results') sv results) =
      set results \<union> {i'. i' = i \<and> (\<exists>s \<in> snd ` set sv. compare H h s \<le> threshold)}"
  using assms
proof (induction sv arbitrary: results)
  case Nil
  then show ?case
    by simp
next
  case (Cons it2 sv)
  let ?r = "if compare H h (snd it2) \<le> threshold then insort_insert i results else results"
  from Cons.prems have "sorted_wrt (<) ?r"
    by (simp add: sorted_wrt_insort_insert)
  from Cons.IH [OF this] show ?case
    by (auto simp: set_insort_insert)
qed

lemma search_results_fold:
  assumes "sorted_wrt (<) (results :: nat list)"
  shows "sorted_wrt (<)
      (fold (\<lambda>it1 results.
         fold (\<lambda>it2 results'.
             if compare H (snd it1) (snd it2) \<le> threshold
             then insort_insert (fst it1) results' else results')
           search_hash_values results)
       hv results)
    \<and> set (fold (\<lambda>it1 results.
         fold (\<lambda>it2 results'.
             if compare H (snd it1) (snd it2) \<le> threshold
             then insort_insert (fst it1) results' else results')
           search_hash_values results)
       hv results) =
      set results \<union>
      {i. \<exists>h s. (i, h) \<in> set hv \<and> s \<in> snd ` set search_hash_values
          \<and> compare H h s \<le> threshold}"
  using assms
proof (induction hv arbitrary: results)
  case Nil
  then show ?case
    by simp
next
  case (Cons it1 hv)
  let ?r = "fold (\<lambda>it2 results'.
             if compare H (snd it1) (snd it2) \<le> threshold
             then insort_insert (fst it1) results' else results')
           search_hash_values results"
  from search_results_row [OF Cons.prems, of H "snd it1" threshold "fst it1" search_hash_values]
  have 1: "sorted_wrt (<) ?r"
    and 2: "set ?r = set results \<union>
      {i'. i' = fst it1 \<and> (\<exists>s \<in> snd ` set search_hash_values. compare H (snd it1) s \<le> threshold)}"
    by blast+
  from Cons.IH [OF 1] show ?case
    unfolding fold_Cons comp_def 2 by (cases it1) (simp, blast)
qed

lemma search_results_eq:
  "search_results H threshold (valid_hashes H file_list) (valid_hashes H search_list) =
     filter (\<lambda>i. list_ex (within_threshold H threshold (file_list ! i)) search_list)
       [0..<length file_list]"
proof (rule sorted_distinct_set_unique)
  let ?r = "search_results H threshold (valid_hashes H file_list) (valid_hashes H search_list)"
  have r: "sorted_wrt (<) ?r \<and>
      set ?r = {i. \<exists>h s. (i, h) \<in> set (valid_hashes H file_list)
          \<and> s \<in> snd ` set (valid_hashes H search_list) \<and> compare H h s \<le> threshold}"
    unfolding search_results_def
    using search_results_fold [of "[]" H threshold "valid_hashes H search_list"
        "valid_hashes H file_list"]
    by simp
  then show "sorted ?r" and "distinct ?r"
    by (simp_all add: strict_sorted_iff)
  have "sorted_wrt (<) (filter (\<lambda>i. list_ex (within_threshold H threshold (file_list ! i))
      search_list) [0..<length file_list])"
    by (simp add: sorted_wrt_filter)
  then show "sorted (filter (\<lambda>i. list_ex (within_threshold H threshold (file_list ! i))
      search_list) [0..<length file_list])"
    and "distinct (filter (\<lambda>i. list_ex (within_threshold H threshold (file_list ! i))
      search_list) [0..<length file_list])"
    by (simp_all add: strict_sorted_iff)
  have sv: "s \<in> snd ` set (valid_hashes H search_list) \<longleftrightarrow>
      (\<exists>q \<in> set search_list. hash_of H q = Some s)" for s
    by (force simp: set_valid_hashes in_set_conv_nth)
  have "set ?r = {i. i < length file_list \<and>
      (\<exists>q \<in> set search_list. within_threshold H threshold (file_list ! i) q)}"
    unfolding conjunct2 [OF r] within_threshold_iff sv
    by (auto simp: set_valid_hashes)
  then show "set ?r = set (filter (\<lambda>i. list_ex (within_threshold H threshold (file_list ! i))
      search_list) [0..<length file_list])"
    by (auto simp: list_ex_iff)
qed

lemma filter_by_index:
  "map (\<lambda>i. xs ! i) (filter (\<lambda>i. P (xs ! i)) [0..<length xs]) = filter P xs"
proof -
  have "filter P (map (\<lambda>i. xs ! i) [0..<length xs]) =
      map (\<lambda>i. xs ! i) (filter (\<lambda>i. P (xs ! i)) [0..<length xs])"
    by (simp add: filter_map comp_def)
  then show ?thesis
    by (simp add: map_nth)
qed

lemma num_threads_of_pos [simp]: "0 < num_threads_of hardware_concurrency"
  by (simp add: num_threads_of_def)

lemma calculate_hash_values_map_single:
  "calculate_hash_values_map H search_list [] 0 1 = valid_hashes H search_list"
  using hash_map_phase_eq [of 1 H search_list] by (simp add: hash_map_phase_def)

section \<open>The traversal\<close>

lemma build_temp_cluster_depth_enough:
  "card (graph_ids m - set tc) < d \<Longrightarrow>
     build_temp_cluster_depth d tc m start = Some (build_temp_cluster tc m start)"
  "card (graph_ids m - set tc) \<le> d \<Longrightarrow> set ns \<subseteq> graph_ids m \<Longrightarrow>
     build_temp_cluster_depth_loop d tc m ns = Some (build_temp_cluster_loop tc m ns)"
proof (induction tc m start and tc m ns arbitrary: d and d
    rule: build_temp_cluster_build_temp_cluster_loop.induct)
  case (1 tc m start)
  from "1.prems" obtain d' where d: "d = Suc d'" and le: "card (graph_ids m - set tc) \<le> d'"
    by (cases d) auto
  show ?case
  proof (cases "map_of m start")
    case None
    then show ?thesis
      by (simp add: d)
  next
    case (Some ns)
    then have "set ns \<subseteq> graph_ids m"
      by (rule map_of_graph_ids)
    with "1.IH" [OF Some le] Some show ?thesis
      by (simp add: d)
  qed
next
  case (2 tc m)
  show ?case
    by simp
next
  case (3 tc m i rest)
  show ?case
  proof (cases "i \<in> set tc")
    case True
    with "3.IH"(1) [of d] "3.prems" show ?thesis
      by simp
  next
    case False
    let ?tc' = "build_temp_cluster (insort_insert i tc) m i"
    from False "3.prems" have "graph_ids m - set (insort_insert i tc) \<subset> graph_ids m - set tc"
      by (auto simp: set_insort_insert)
    then have "card (graph_ids m - set (insort_insert i tc)) < card (graph_ids m - set tc)"
      by (intro psubset_card_mono) (auto simp: finite_graph_ids)
    with "3.prems" have "card (graph_ids m - set (insort_insert i tc)) < d"
      by simp
    with "3.IH"(2) [OF False] have inner:
      "build_temp_cluster_depth d (insort_insert i tc) m i = Some ?tc'"
      by simp
    have "set tc \<subseteq> set ?tc'"
      using build_temp_cluster_grows(1) [of "insort_insert i tc" m i]
      by (auto simp: set_insort_insert)
    then have "card (graph_ids m - set ?tc') \<le> card (graph_ids m - set tc)"
      by (intro card_mono) (auto simp: finite_graph_ids)
    with "3.prems" have "card (graph_ids m - set ?tc') \<le> d"
      by simp
    with "3.IH"(3) [OF False, of d] "3.prems" have
      "build_temp_cluster_depth_loop d ?tc' m rest = Some (build_temp_cluster_loop ?tc' m rest)"
      by simp
    with False inner show ?thesis
      by simp
  qed
qed

lemma build_temp_cluster_at_Some:
  "build_temp_cluster_at tc m start = Some r \<Longrightarrow> r = build_temp_cluster tc m start"
  "build_temp_cluster_at_loop tc m ns = Some r \<Longrightarrow> r = build_temp_cluster_loop tc m ns"
proof (induction tc m start and tc m ns arbitrary: r and r
    rule: build_temp_cluster_at_build_temp_cluster_at_loop.induct)
  case (1 tc m start)
  then show ?case
    by (auto split: option.splits)
next
  case (2 tc m)
  then show ?case
    by simp
next
  case (3 tc m i rest)
  then show ?case
    by (auto split: if_splits option.splits)
qed

section \<open>The ids of the clusters\<close>

lemma build_temp_cluster_subset:
  "set (build_temp_cluster tc m start) \<subseteq> set tc \<union> graph_ids m"
  "set (build_temp_cluster_loop tc m ns) \<subseteq> set tc \<union> set ns \<union> graph_ids m"
proof (induction tc m start and tc m ns rule: build_temp_cluster_build_temp_cluster_loop.induct)
  case (1 tc m start)
  show ?case
  proof (cases "map_of m start")
    case None
    then show ?thesis
      by simp
  next
    case (Some ns)
    with 1 map_of_graph_ids [OF Some] show ?thesis
      by auto
  qed
next
  case (2 tc m)
  show ?case
    by simp
next
  case (3 tc m i rest)
  show ?case
  proof (cases "i \<in> set tc")
    case True
    with 3 show ?thesis
      by auto
  next
    case False
    with 3 have "set (build_temp_cluster (insort_insert i tc) m i)
        \<subseteq> set (insort_insert i tc) \<union> graph_ids m"
      and "set (build_temp_cluster_loop (build_temp_cluster (insort_insert i tc) m i) m rest)
        \<subseteq> set (build_temp_cluster (insort_insert i tc) m i) \<union> set rest \<union> graph_ids m"
      by simp_all
    with False show ?thesis
      by (auto simp: set_insort_insert)
  qed
qed

lemma build_temp_cluster_loop_neighbours:
  "set ns \<subseteq> set (build_temp_cluster_loop tc m ns)"
proof (induction ns arbitrary: tc)
  case Nil
  show ?case
    by simp
next
  case (Cons i rest)
  show ?case
  proof (cases "i \<in> set tc")
    case True
    with Cons [of tc] build_temp_cluster_grows(2) [of tc m rest] show ?thesis
      by auto
  next
    case False
    let ?tc = "build_temp_cluster (insort_insert i tc) m i"
    have "i \<in> set ?tc"
      using build_temp_cluster_grows(1) [of "insort_insert i tc" m i]
      by (auto simp: set_insort_insert)
    then have "i \<in> set (build_temp_cluster_loop ?tc m rest)"
      using build_temp_cluster_grows(2) [of ?tc m rest] by auto
    with False Cons [of ?tc] show ?thesis
      by simp
  qed
qed

lemma build_temp_cluster_start:
  "k \<in> set (build_temp_cluster [k] m k)"
  using build_temp_cluster_grows(1) [of "[k]" m k] by simp

lemma build_temp_cluster_neighbours:
  "map_of m k = Some ns \<Longrightarrow> set ns \<subseteq> set (build_temp_cluster tc m k)"
  by (simp add: build_temp_cluster_loop_neighbours)

lemma set_fold_insort_insert:
  "set (fold insort_insert xs (ys :: nat list)) = set xs \<union> set ys"
  by (induction xs arbitrary: ys) (auto simp: set_insort_insert)

lemma unify_temp_cluster_union:
  "\<Union> (set ` set (unify_temp_cluster temp_cluster image_clusters)) =
     set temp_cluster \<union> \<Union> (set ` set image_clusters)"
  by (induction image_clusters) (auto simp: set_fold_insort_insert)

lemma fold_cluster_entry_union:
  "\<Union> (set ` set (fold (cluster_entry m) es cs)) =
     \<Union> (set ` set cs) \<union> (\<Union>e \<in> {e \<in> set es. snd e \<noteq> []}. set (build_temp_cluster [fst e] m (fst e)))"
proof (induction es arbitrary: cs)
  case Nil
  show ?case
    by simp
next
  case (Cons e es)
  show ?case
    unfolding fold_Cons comp_def Cons.IH
    by (auto simp: cluster_entry_def unify_temp_cluster_union)
qed

lemma build_clusters_union:
  "\<Union> (set ` set (build_clusters m)) =
     (\<Union>e \<in> {e \<in> set m. snd e \<noteq> []}. set (build_temp_cluster [fst e] m (fst e)))"
  by (simp add: build_clusters_def fold_cluster_entry_union)

lemma build_clusters_subset: "\<Union> (set ` set (build_clusters m)) \<subseteq> graph_ids m"
proof -
  have "set (build_temp_cluster [fst e] m (fst e)) \<subseteq> graph_ids m" if "e \<in> set m" for e
  proof -
    from that have "fst e \<in> graph_ids m"
      by (auto simp: graph_ids_def)
    with build_temp_cluster_subset(1) [of "[fst e]" m "fst e"] show ?thesis
      by auto
  qed
  then show ?thesis
    unfolding build_clusters_union by blast
qed

lemma graph_ids_neighbours:
  assumes "keys_ascending m"
  shows "graph_ids m = fst ` set m \<union> (\<Union>k. set (neighbours m k))"
proof -
  have "\<Union> (set ` snd ` set m) = (\<Union>k. set (neighbours m k))"
  proof (intro equalityI subsetI)
    fix x
    assume "x \<in> \<Union> (set ` snd ` set m)"
    then obtain k ns where e: "(k, ns) \<in> set m" and x: "x \<in> set ns"
      by auto
    from keys_ascending_distinct [OF assms] e have "map_of m k = Some ns"
      by (rule map_of_is_SomeI)
    with x have "x \<in> set (neighbours m k)"
      by (simp add: neighbours_def)
    then show "x \<in> (\<Union>k. set (neighbours m k))"
      by blast
  next
    fix x
    assume "x \<in> (\<Union>k. set (neighbours m k))"
    then obtain k where "x \<in> set (neighbours m k)"
      by blast
    then obtain ns where "map_of m k = Some ns" and "x \<in> set ns"
      by (cases "map_of m k") (simp_all add: neighbours_def)
    then show "x \<in> \<Union> (set ` snd ` set m)"
      by (force dest: map_of_SomeD)
  qed
  then show ?thesis
    by (simp add: graph_ids_def)
qed

lemma neighbours_are_keysD:
  "neighbours_are_keys m \<Longrightarrow> map_of m k = Some ns \<Longrightarrow> j \<in> set ns \<Longrightarrow> map_of m j \<noteq> None"
  by (auto simp: neighbours_are_keys_def list_all_iff contains_def dest!: map_of_SomeD)

lemma build_temp_cluster_at_closed:
  "neighbours_are_keys m \<Longrightarrow> map_of m start \<noteq> None \<Longrightarrow>
     build_temp_cluster_at tc m start = Some (build_temp_cluster tc m start)"
  "neighbours_are_keys m \<Longrightarrow> (\<And>j. j \<in> set ns \<Longrightarrow> map_of m j \<noteq> None) \<Longrightarrow>
     build_temp_cluster_at_loop tc m ns = Some (build_temp_cluster_loop tc m ns)"
proof (induction tc m start and tc m ns
    rule: build_temp_cluster_at_build_temp_cluster_at_loop.induct)
  case (1 tc m start)
  from "1.prems" obtain ns where ns: "map_of m start = Some ns"
    by auto
  have "map_of m j \<noteq> None" if "j \<in> set ns" for j
    using "1.prems"(1) ns that by (rule neighbours_are_keysD)
  with "1.IH" [OF ns "1.prems"(1)] ns show ?case
    by simp
next
  case (2 tc m)
  show ?case
    by simp
next
  case (3 tc m i rest)
  show ?case
  proof (cases "i \<in> set tc")
    case True
    with "3.IH"(1) "3.prems" show ?thesis
      by simp
  next
    case False
    from "3.prems" have i: "map_of m i \<noteq> None"
      by simp
    from "3.IH"(2) [OF False "3.prems"(1) i] have inner:
      "build_temp_cluster_at (insort_insert i tc) m i =
        Some (build_temp_cluster (insort_insert i tc) m i)" .
    from "3.IH"(3) [OF False inner "3.prems"(1)] "3.prems"(2) have
      "build_temp_cluster_at_loop (build_temp_cluster (insort_insert i tc) m i) m rest =
        Some (build_temp_cluster_loop (build_temp_cluster (insort_insert i tc) m i) m rest)"
      by simp
    with False inner show ?thesis
      by simp
  qed
qed

lemma cluster_entries_unique_closed:
  assumes "neighbours_are_keys m" and "\<And>e. e \<in> set es \<Longrightarrow> map_of m (fst e) \<noteq> None"
  shows "cluster_entries_unique m es state = Some (fold (cluster_entry_unique m) es state)"
  using assms(2)
proof (induction es arbitrary: state)
  case Nil
  show ?case
    by simp
next
  case (Cons e es)
  from Cons.prems have "map_of m (fst e) \<noteq> None"
    by simp
  with assms(1) have "build_temp_cluster_at [fst e] m (fst e) =
      Some (build_temp_cluster [fst e] m (fst e))"
    by (rule build_temp_cluster_at_closed(1))
  with Cons show ?case
    by (simp add: cluster_entry_unique_def)
qed

lemma fold_cluster_entry_unique_clusters:
  "\<Union> (set ` set (fst (fold (cluster_entry_unique m) es state))) =
     \<Union> (set ` set (fst state))
       \<union> (\<Union>e \<in> {e \<in> set es. snd e \<noteq> []}. set (build_temp_cluster [fst e] m (fst e)))"
proof (induction es arbitrary: state)
  case Nil
  show ?case
    by simp
next
  case (Cons e es)
  show ?case
    unfolding fold_Cons comp_def Cons.IH
    by (auto simp: cluster_entry_unique_def unify_temp_cluster_union)
qed

lemma fold_cluster_entry_unique_unique:
  "set (snd (fold (cluster_entry_unique m) es state)) =
     set (snd state) \<union> fst ` {e \<in> set es. snd e = []}"
proof (induction es arbitrary: state)
  case Nil
  show ?case
    by simp
next
  case (Cons e es)
  show ?case
    unfolding fold_Cons comp_def Cons.IH
    by (auto simp: cluster_entry_unique_def set_insort_insert)
qed

lemma contains_keys: "contains m k \<longleftrightarrow> k \<in> fst ` set m"
  by (simp add: contains_def map_of_None_iff)

lemma similarity_phase_threads:
  assumes "0 < n1" and "0 < n2"
  shows "similarity_phase H n1 threshold hash_list = similarity_phase H n2 threshold hash_list"
  unfolding similarity_phase_sections
  by (rule apply_sections_set_cong) (simp only: set_all_sections [OF assms(1)]
      set_all_sections [OF assms(2)])

lemma similar_pair_unreadable:
  assumes "i < length file_list" and "hash_of H (file_list ! i) = None"
  shows "\<not> similar_pair H (map (hash_of H) file_list) threshold i j"
    and "j < length file_list \<Longrightarrow> \<not> similar_pair H (map (hash_of H) file_list) threshold j i"
  using assms by (simp_all add: similar_pair_def split: option.splits)

lemma similar_pair_readable:
  assumes "similar_pair H (map (hash_of H) file_list) threshold i j"
    and "i < j" and "j < length file_list"
  shows "(\<exists>hi. hash_of H (file_list ! i) = Some hi) \<and> (\<exists>hj. hash_of H (file_list ! j) = Some hj)"
proof -
  from assms(2,3) have "i < length file_list"
    by simp
  with assms show ?thesis
    by (auto simp: similar_pair_def split: option.splits)
qed

text \<open>The ids of the graph of \<open>img-similarity-cluster\<close> and its clusters.\<close>

lemma similarity_graph_ids:
  assumes "0 < num_threads"
  shows "graph_ids (similarity_phase H num_threads threshold hash_list) =
     {i. \<exists>j. (i < j \<and> j < length hash_list \<and> similar_pair H hash_list threshold i j)
           \<or> (j < i \<and> i < length hash_list \<and> similar_pair H hash_list threshold j i)}"
  unfolding graph_ids_neighbours [OF similarity_phase_ascending(1)]
    similarity_phase_keys [OF assms] similarity_phase_neighbours [OF assms]
  by blast

lemma similarity_graph_entries:
  assumes "0 < num_threads"
    and "e \<in> set (similarity_phase H num_threads threshold hash_list)"
  shows "snd e \<noteq> []"
proof -
  let ?g = "similarity_phase H num_threads threshold hash_list"
  from assms(2) have "(fst e, snd e) \<in> set ?g"
    by simp
  with keys_ascending_distinct [OF similarity_phase_ascending(1)]
  have look: "map_of ?g (fst e) = Some (snd e)"
    by (rule map_of_is_SomeI)
  from assms(2) have "fst e \<in> fst ` set ?g"
    by simp
  then obtain j where "fst e < j" "j < length hash_list"
    "similar_pair H hash_list threshold (fst e) j"
    unfolding similarity_phase_keys [OF assms(1)] by blast
  then have "j \<in> set (neighbours ?g (fst e))"
    unfolding similarity_phase_neighbours [OF assms(1)] by simp
  with look show ?thesis
    by (auto simp: neighbours_def)
qed

lemma similarity_clusters_ids:
  assumes "0 < num_threads"
  shows "\<Union> (set ` set (build_clusters (similarity_phase H num_threads threshold hash_list))) =
     graph_ids (similarity_phase H num_threads threshold hash_list)"
proof (rule equalityI)
  let ?g = "similarity_phase H num_threads threshold hash_list"
  show "\<Union> (set ` set (build_clusters ?g)) \<subseteq> graph_ids ?g"
    by (rule build_clusters_subset)
  show "graph_ids ?g \<subseteq> \<Union> (set ` set (build_clusters ?g))"
  proof
    fix x
    assume "x \<in> graph_ids ?g"
    then obtain e where e: "e \<in> set ?g" and x: "x = fst e \<or> x \<in> set (snd e)"
      by (auto simp: graph_ids_def)
    from e have "(fst e, snd e) \<in> set ?g"
      by simp
    with keys_ascending_distinct [OF similarity_phase_ascending(1)]
    have "map_of ?g (fst e) = Some (snd e)"
      by (rule map_of_is_SomeI)
    then have "set (snd e) \<subseteq> set (build_temp_cluster [fst e] ?g (fst e))"
      by (rule build_temp_cluster_neighbours)
    with x build_temp_cluster_start [of "fst e" ?g]
    have "x \<in> set (build_temp_cluster [fst e] ?g (fst e))"
      by auto
    moreover have "snd e \<noteq> []"
      using assms e by (rule similarity_graph_entries)
    ultimately show "x \<in> \<Union> (set ` set (build_clusters ?g))"
      unfolding build_clusters_union using e by blast
  qed
qed

text \<open>The graph of the variant with unique images.\<close>

lemma similarities_unique_contains:
  assumes "0 < num_threads"
  shows "contains (similarities_unique H num_threads threshold file_list) i \<longleftrightarrow>
     i < length file_list \<and> hash_of H (file_list ! i) \<noteq> None"
  by (simp add: contains_keys similarities_unique_keys [OF assms])

lemma similarities_unique_neighbours_are_keys:
  assumes "0 < num_threads"
  shows "neighbours_are_keys (similarities_unique H num_threads threshold file_list)"
proof -
  let ?g = "similarities_unique H num_threads threshold file_list"
  have "contains ?g j" if e: "e \<in> set ?g" and j: "j \<in> set (snd e)" for e j
  proof -
    from e have "(fst e, snd e) \<in> set ?g"
      by simp
    with keys_ascending_distinct [OF similarities_unique_ascending(1)]
    have "map_of ?g (fst e) = Some (snd e)"
      by (rule map_of_is_SomeI)
    with j have "j \<in> set (neighbours ?g (fst e))"
      by (simp add: neighbours_def)
    then show ?thesis
      unfolding similarities_unique_neighbours [OF assms] similarities_unique_contains [OF assms]
      by (auto dest!: similar_pair_readable)
  qed
  then show ?thesis
    by (simp add: neighbours_are_keys_def list_all_iff)
qed

lemma similarities_unique_graph_ids:
  assumes "0 < num_threads"
  shows "graph_ids (similarities_unique H num_threads threshold file_list) =
     {i. i < length file_list \<and> hash_of H (file_list ! i) \<noteq> None}"
proof -
  let ?g = "similarities_unique H num_threads threshold file_list"
  have "set (neighbours ?g k) \<subseteq> fst ` set ?g" for k
    unfolding similarities_unique_neighbours [OF assms] similarities_unique_keys [OF assms]
    by (auto dest!: similar_pair_readable)
  then have "graph_ids ?g = fst ` set ?g"
    unfolding graph_ids_neighbours [OF similarities_unique_ascending(1)] by blast
  then show ?thesis
    by (simp only: similarities_unique_keys [OF assms])
qed

lemma image_clusters_unique_of_eq:
  assumes "0 < num_threads"
  shows "image_clusters_unique_of H num_threads threshold file_list =
     Some (fold (cluster_entry_unique (similarities_unique H num_threads threshold file_list))
       (similarities_unique H num_threads threshold file_list) ([], []))"
  unfolding image_clusters_unique_of_def
proof (rule cluster_entries_unique_closed)
  let ?g = "similarities_unique H num_threads threshold file_list"
  show "neighbours_are_keys ?g"
    using assms by (rule similarities_unique_neighbours_are_keys)
  show "map_of ?g (fst e) \<noteq> None" if "e \<in> set ?g" for e
    using that by (simp add: map_of_None_iff)
qed

section \<open>Files that do not decode\<close>

lemma hash_of_unreadable: "imread H file = None \<Longrightarrow> hash_of H file = None"
  by (simp add: hash_of_def)

lemma hash_of_readable: "imread H file \<noteq> None \<Longrightarrow> hash_of H file \<noteq> None"
  by (auto simp: hash_of_def)

section \<open>Components\<close>

text \<open>
  From here on the equations of the traversal are unfolded by name only.
\<close>

declare build_temp_cluster.simps [simp del]

declare build_temp_cluster_at.simps [simp del]

lemma edges_Image: "edges m `` {k} = set (neighbours m k)"
  by (auto simp: edges_def)

lemma neighbours_Some: "map_of m k = Some ns \<Longrightarrow> neighbours m k = ns"
  by (simp add: neighbours_def)

lemma neighbours_None: "map_of m k = None \<Longrightarrow> neighbours m k = []"
  by (simp add: neighbours_def)

lemma rtrancl_Image_step:
  assumes "A \<subseteq> r `` {s}"
  shows "r\<^sup>* `` A \<subseteq> r\<^sup>* `` {s}"
proof
  fix y
  assume "y \<in> r\<^sup>* `` A"
  then obtain a where a: "a \<in> A" and y: "(a, y) \<in> r\<^sup>*"
    by blast
  from a assms have "(s, a) \<in> r"
    by blast
  then have "(s, y) \<in> r\<^sup>*"
    using y by (rule converse_rtrancl_into_rtrancl)
  then show "y \<in> r\<^sup>* `` {s}"
    by blast
qed

text \<open>Everything the traversal adds is reachable from where it started.\<close>

lemma build_temp_cluster_sound:
  "set (build_temp_cluster tc m start) \<subseteq> set tc \<union> (edges m)\<^sup>* `` {start}"
  "set (build_temp_cluster_loop tc m ns) \<subseteq> set tc \<union> (edges m)\<^sup>* `` set ns"
proof (induction tc m start and tc m ns rule: build_temp_cluster_build_temp_cluster_loop.induct)
  case (1 tc m start)
  show ?case
  proof (cases "map_of m start")
    case None
    then show ?thesis
      by (simp add: build_temp_cluster.simps)
  next
    case (Some ns)
    then have "set ns \<subseteq> edges m `` {start}"
      by (simp add: edges_Image neighbours_Some)
    then have "(edges m)\<^sup>* `` set ns \<subseteq> (edges m)\<^sup>* `` {start}"
      by (rule rtrancl_Image_step)
    with "1.IH" [OF Some] Some show ?thesis
      by (auto simp: build_temp_cluster.simps)
  qed
next
  case (2 tc m)
  show ?case
    by simp
next
  case (3 tc m i rest)
  show ?case
  proof (cases "i \<in> set tc")
    case True
    with "3.IH"(1) show ?thesis
      by auto
  next
    case False
    let ?tc = "build_temp_cluster (insort_insert i tc) m i"
    from "3.IH"(2) [OF False] have "set ?tc \<subseteq> insert i (set tc) \<union> (edges m)\<^sup>* `` {i}"
      by (simp add: set_insort_insert)
    moreover from "3.IH"(3) [OF False] have
      "set (build_temp_cluster_loop ?tc m rest) \<subseteq> set ?tc \<union> (edges m)\<^sup>* `` set rest" .
    ultimately have "set (build_temp_cluster_loop ?tc m rest)
        \<subseteq> set tc \<union> (edges m)\<^sup>* `` set (i # rest)"
      by auto
    with False show ?thesis
      by simp
  qed
qed

text \<open>
  Whatever the traversal adds has all its neighbours in the result, and so has the id
  it started from.
\<close>

lemma build_temp_cluster_closed:
  "set (neighbours m start) \<subseteq> set (build_temp_cluster tc m start)
     \<and> (\<forall>x \<in> set (build_temp_cluster tc m start) - set tc.
           set (neighbours m x) \<subseteq> set (build_temp_cluster tc m start))"
  "set ns \<subseteq> set (build_temp_cluster_loop tc m ns)
     \<and> (\<forall>x \<in> set (build_temp_cluster_loop tc m ns) - set tc.
           set (neighbours m x) \<subseteq> set (build_temp_cluster_loop tc m ns))"
proof (induction tc m start and tc m ns rule: build_temp_cluster_build_temp_cluster_loop.induct)
  case (1 tc m start)
  show ?case
  proof (cases "map_of m start")
    case None
    then show ?thesis
      by (simp add: build_temp_cluster.simps neighbours_None)
  next
    case (Some ns)
    with "1.IH" [OF Some] show ?thesis
      by (simp add: build_temp_cluster.simps neighbours_Some)
  qed
next
  case (2 tc m)
  show ?case
    by simp
next
  case (3 tc m i rest)
  show ?case
  proof (cases "i \<in> set tc")
    case True
    with "3.IH"(1) build_temp_cluster_grows(2) [of tc m rest] show ?thesis
      by auto
  next
    case False
    let ?tc = "build_temp_cluster (insort_insert i tc) m i"
    let ?T = "build_temp_cluster_loop ?tc m rest"
    have g1: "insert i (set tc) \<subseteq> set ?tc"
      using build_temp_cluster_grows(1) [of "insort_insert i tc" m i]
      by (simp add: set_insort_insert)
    have g2: "set ?tc \<subseteq> set ?T"
      by (rule build_temp_cluster_grows(2))
    from "3.IH"(2) [OF False] have i: "set (neighbours m i) \<subseteq> set ?tc"
      and inner: "\<forall>x \<in> set ?tc - insert i (set tc). set (neighbours m x) \<subseteq> set ?tc"
      by (simp_all add: set_insort_insert)
    from "3.IH"(3) [OF False] have rest: "set rest \<subseteq> set ?T"
      and outer: "\<forall>x \<in> set ?T - set ?tc. set (neighbours m x) \<subseteq> set ?T"
      by simp_all
    have "set (neighbours m x) \<subseteq> set ?T" if "x \<in> set ?T - set tc" for x
    proof (cases "x \<in> set ?tc")
      case False
      with that outer show ?thesis
        by blast
    next
      case True
      show ?thesis
      proof (cases "x = i")
        case True
        with i g2 show ?thesis
          by blast
      next
        case False
        with True that inner g2 show ?thesis
          by blast
      qed
    qed
    moreover have "set (i # rest) \<subseteq> set ?T"
      using g1 g2 rest by auto
    ultimately show ?thesis
      using False by simp
  qed
qed

text \<open>From a cluster that holds only the start, the traversal returns what is reachable.\<close>

lemma build_temp_cluster_reachable:
  "set (build_temp_cluster [k] m k) = (edges m)\<^sup>* `` {k}"
proof (rule equalityI)
  show "set (build_temp_cluster [k] m k) \<subseteq> (edges m)\<^sup>* `` {k}"
    using build_temp_cluster_sound(1) [of "[k]" m k] by auto
next
  let ?T = "set (build_temp_cluster [k] m k)"
  have k: "k \<in> ?T"
    using build_temp_cluster_grows(1) [of "[k]" m k] by simp
  have "set (neighbours m x) \<subseteq> ?T" if "x \<in> ?T" for x
    using build_temp_cluster_closed(1) [of m k "[k]"] that by (cases "x = k") auto
  then have "edges m `` ?T \<subseteq> ?T"
    by (auto simp: edges_def)
  then have "(edges m)\<^sup>* `` ?T = ?T"
    by (rule Image_closed_trancl)
  with k show "(edges m)\<^sup>* `` {k} \<subseteq> ?T"
    by blast
qed

lemma component_eq:
  assumes "sym r" and "x \<in> r\<^sup>* `` {a}" and "x \<in> r\<^sup>* `` {b}"
  shows "r\<^sup>* `` {a} = r\<^sup>* `` {b}"
proof -
  have s: "sym (r\<^sup>*)"
    using assms(1) by (rule sym_rtrancl)
  from assms(2,3) have ax: "(a, x) \<in> r\<^sup>*" and bx: "(b, x) \<in> r\<^sup>*"
    by simp_all
  from s ax have xa: "(x, a) \<in> r\<^sup>*"
    by (rule symD)
  from s bx have xb: "(x, b) \<in> r\<^sup>*"
    by (rule symD)
  from ax xb have ab: "(a, b) \<in> r\<^sup>*"
    by (rule rtrancl_trans)
  from bx xa have ba: "(b, a) \<in> r\<^sup>*"
    by (rule rtrancl_trans)
  show ?thesis
  proof (intro equalityI subsetI)
    fix y
    assume "y \<in> r\<^sup>* `` {a}"
    then have "(a, y) \<in> r\<^sup>*"
      by simp
    with ba have "(b, y) \<in> r\<^sup>*"
      by (rule rtrancl_trans)
    then show "y \<in> r\<^sup>* `` {b}"
      by simp
  next
    fix y
    assume "y \<in> r\<^sup>* `` {b}"
    then have "(b, y) \<in> r\<^sup>*"
      by simp
    with ab have "(a, y) \<in> r\<^sup>*"
      by (rule rtrancl_trans)
    then show "y \<in> r\<^sup>* `` {a}"
      by simp
  qed
qed

lemma component_self:
  assumes "sym r" and "x \<in> r\<^sup>* `` {a}"
  shows "r\<^sup>* `` {a} = r\<^sup>* `` {x}"
  using assms(1,2) by (rule component_eq) simp

text \<open>
  When the clusters and the temporary cluster are components of a symmetric relation,
  unifying changes no cluster; the temporary cluster is appended unless it is there.
\<close>

lemma unify_temp_cluster_component:
  assumes "sym r" and "set temp = r\<^sup>* `` {k}"
    and "\<And>c. c \<in> set cs \<Longrightarrow> \<exists>k'. set c = r\<^sup>* `` {k'}"
  shows "map set (unify_temp_cluster temp cs) =
     (if set temp \<in> set ` set cs then map set cs else map set cs @ [set temp])"
  using assms(3)
proof (induction cs)
  case Nil
  show ?case
    by simp
next
  case (Cons j cs)
  from Cons.prems obtain k' where j: "set j = r\<^sup>* `` {k'}"
    by auto
  have overlap: "list_ex (\<lambda>x. x \<in> set temp) j \<longleftrightarrow> set j = set temp"
  proof
    assume "list_ex (\<lambda>x. x \<in> set temp) j"
    then obtain x where "x \<in> set j" and "x \<in> set temp"
      by (auto simp: list_ex_iff)
    then have "x \<in> r\<^sup>* `` {k'}" and "x \<in> r\<^sup>* `` {k}"
      by (simp_all only: j assms(2))
    with assms(1) have "r\<^sup>* `` {k'} = r\<^sup>* `` {k}"
      by (rule component_eq)
    then show "set j = set temp"
      by (simp only: j assms(2))
  next
    assume "set j = set temp"
    moreover have "k' \<in> set j"
      by (simp add: j)
    ultimately show "list_ex (\<lambda>x. x \<in> set temp) j"
      by (auto simp: list_ex_iff)
  qed
  show ?case
  proof (cases "set j = set temp")
    case True
    then have "set (fold insort_insert temp j) = set j"
      by (simp add: set_fold_insort_insert)
    with True overlap show ?thesis
      by simp
  next
    case False
    have "map set (unify_temp_cluster temp cs) =
        (if set temp \<in> set ` set cs then map set cs else map set cs @ [set temp])"
      using Cons.prems by (intro Cons.IH) simp
    with False overlap show ?thesis
      by auto
  qed
qed

lemma component_clusters_step:
  assumes "sym (edges m)" and "component_clusters m cs" and "neighbours m k \<noteq> []"
  shows "component_clusters m (unify_temp_cluster (build_temp_cluster [k] m k) cs)"
proof -
  let ?t = "build_temp_cluster [k] m k"
  let ?r = "edges m"
  have t: "set ?t = ?r\<^sup>* `` {k}"
    by (rule build_temp_cluster_reachable)
  have comps: "\<exists>k'. set c = ?r\<^sup>* `` {k'}" if "c \<in> set cs" for c
    using assms(2) that by (auto simp: component_clusters_def)
  have sets: "map set (unify_temp_cluster ?t cs) =
      (if set ?t \<in> set ` set cs then map set cs else map set cs @ [set ?t])"
    using assms(1) t comps by (rule unify_temp_cluster_component)
  have d: "distinct (map set (unify_temp_cluster ?t cs))"
    unfolding sets using assms(2) by (auto simp: component_clusters_def)
  have "\<exists>k'. neighbours m k' \<noteq> [] \<and> set c = ?r\<^sup>* `` {k'}"
    if "c \<in> set (unify_temp_cluster ?t cs)" for c
  proof -
    from that have "set c \<in> set (map set (unify_temp_cluster ?t cs))"
      by simp
    then have "set c \<in> set ` set cs \<or> set c = set ?t"
      unfolding sets by (auto split: if_splits)
    then show ?thesis
    proof
      assume "set c \<in> set ` set cs"
      then obtain c' where "c' \<in> set cs" and "set c = set c'"
        by auto
      with assms(2) show ?thesis
        by (auto simp: component_clusters_def)
    next
      assume "set c = set ?t"
      with t assms(3) show ?thesis
        by auto
    qed
  qed
  with d show ?thesis
    unfolding component_clusters_def by blast
qed

lemma component_clusters_fold:
  assumes "sym (edges m)" and "keys_ascending m"
    and "set es \<subseteq> set m" and "component_clusters m (fst state)"
  shows "component_clusters m (fst (fold (cluster_entry_unique m) es state))"
  using assms(3,4)
proof (induction es arbitrary: state)
  case Nil
  then show ?case
    by simp
next
  case (Cons e es)
  from Cons.prems(1) have e: "(fst e, snd e) \<in> set m"
    by simp
  with keys_ascending_distinct [OF assms(2)] have "map_of m (fst e) = Some (snd e)"
    by (rule map_of_is_SomeI)
  then have nb: "neighbours m (fst e) = snd e"
    by (rule neighbours_Some)
  have "component_clusters m (fst (cluster_entry_unique m e state))"
  proof (cases "snd e = []")
    case True
    with Cons.prems(2) show ?thesis
      by (simp add: cluster_entry_unique_def)
  next
    case False
    with nb have "neighbours m (fst e) \<noteq> []"
      by simp
    with assms(1) Cons.prems(2) have
      "component_clusters m (unify_temp_cluster (build_temp_cluster [fst e] m (fst e)) (fst state))"
      by (rule component_clusters_step)
    with False show ?thesis
      by (simp add: cluster_entry_unique_def)
  qed
  moreover from Cons.prems(1) have "set es \<subseteq> set m"
    by simp
  ultimately have
    "component_clusters m (fst (fold (cluster_entry_unique m) es (cluster_entry_unique m e state)))"
    by (intro Cons.IH)
  then show ?case
    by simp
qed

lemma component_clusters_disjoint:
  assumes "sym (edges m)" and "component_clusters m cs"
    and "a < length cs" and "b < length cs" and "a \<noteq> b"
  shows "set (cs ! a) \<inter> set (cs ! b) = {}"
proof (rule ccontr)
  assume "set (cs ! a) \<inter> set (cs ! b) \<noteq> {}"
  then obtain x where xa: "x \<in> set (cs ! a)" and xb: "x \<in> set (cs ! b)"
    by blast
  from assms(3,4) have "cs ! a \<in> set cs" and "cs ! b \<in> set cs"
    by simp_all
  with assms(2) obtain ka kb where ka: "set (cs ! a) = (edges m)\<^sup>* `` {ka}"
    and kb: "set (cs ! b) = (edges m)\<^sup>* `` {kb}"
    unfolding component_clusters_def by blast
  from xa xb have "x \<in> (edges m)\<^sup>* `` {ka}" and "x \<in> (edges m)\<^sup>* `` {kb}"
    by (simp_all only: ka kb)
  with assms(1) have "(edges m)\<^sup>* `` {ka} = (edges m)\<^sup>* `` {kb}"
    by (rule component_eq)
  then have eq: "map set cs ! a = map set cs ! b"
    using assms(3,4) ka kb by simp
  from assms(2) have d: "distinct (map set cs)"
    by (simp add: component_clusters_def)
  from assms(3,4) have la: "a < length (map set cs)" and lb: "b < length (map set cs)"
    by simp_all
  from nth_eq_iff_index_eq [OF d la lb] eq have "a = b"
    by (rule iffD1)
  with assms(5) show False
    by simp
qed

lemma component_clusters_members:
  assumes "sym (edges m)" and "component_clusters m cs" and "c \<in> set cs" and "i \<in> set c"
  shows "set c = (edges m)\<^sup>* `` {i}"
proof -
  from assms(2,3) obtain k where k: "set c = (edges m)\<^sup>* `` {k}"
    by (auto simp: component_clusters_def)
  from assms(4) have "i \<in> (edges m)\<^sup>* `` {k}"
    by (simp only: k)
  with assms(1) have "(edges m)\<^sup>* `` {k} = (edges m)\<^sup>* `` {i}"
    by (rule component_self)
  with k show ?thesis
    by simp
qed

lemma component_clusters_not_isolated:
  assumes "sym (edges m)" and "component_clusters m cs" and "c \<in> set cs" and "i \<in> set c"
  shows "neighbours m i \<noteq> []"
proof -
  from assms(2,3) obtain k where nk: "neighbours m k \<noteq> []" and k: "set c = (edges m)\<^sup>* `` {k}"
    by (auto simp: component_clusters_def)
  from assms(4) have "(k, i) \<in> (edges m)\<^sup>*"
    by (simp add: k)
  then show ?thesis
  proof (cases rule: rtranclE)
    case base
    with nk show ?thesis
      by simp
  next
    case (step y)
    from step(2) assms(1) have "(i, y) \<in> edges m"
      by (auto dest: symD)
    then show ?thesis
      by (auto simp: edges_def)
  qed
qed

lemma sym_similar_ids: "sym (similar_ids H file_list threshold)"
  by (auto simp: sym_def similar_ids_def)

lemma edges_similarities_unique:
  assumes "0 < num_threads"
  shows "edges (similarities_unique H num_threads threshold file_list) =
     similar_ids H file_list threshold"
  unfolding edges_def similar_ids_def similarities_unique_neighbours [OF assms]
  by auto

text \<open>What the loop with unique images covers.\<close>

lemma cluster_entry_unique_cover:
  assumes "0 < num_threads"
  shows "\<Union> (set ` set (fst (fold
            (cluster_entry_unique (similarities_unique H num_threads threshold file_list))
            (similarities_unique H num_threads threshold file_list) ([], []))))
       \<union> set (snd (fold
            (cluster_entry_unique (similarities_unique H num_threads threshold file_list))
            (similarities_unique H num_threads threshold file_list) ([], [])))
     = {a. a < length file_list \<and> imread H (file_list ! a) \<noteq> None}"
proof -
  let ?u = "similarities_unique H num_threads threshold file_list"
  let ?s = "fold (cluster_entry_unique ?u) ?u ([], [])"
  have valid: "graph_ids ?u = {a. a < length file_list \<and> hash_of H (file_list ! a) \<noteq> None}"
    using assms by (rule similarities_unique_graph_ids)
  have "set (build_temp_cluster [fst e] ?u (fst e)) \<subseteq> graph_ids ?u" if "e \<in> set ?u" for e
  proof -
    from that have "fst e \<in> graph_ids ?u"
      by (auto simp: graph_ids_def)
    with build_temp_cluster_subset(1) [of "[fst e]" ?u "fst e"] show ?thesis
      by auto
  qed
  then have sub: "\<Union> (set ` set (fst ?s)) \<subseteq> graph_ids ?u"
    unfolding fold_cluster_entry_unique_clusters by fastforce
  have uni: "set (snd ?s) = fst ` {e \<in> set ?u. snd e = []}"
    unfolding fold_cluster_entry_unique_unique by simp
  then have usub: "set (snd ?s) \<subseteq> graph_ids ?u"
    by (auto simp: graph_ids_def)
  have keys: "fst ` set ?u = graph_ids ?u"
    unfolding valid by (rule similarities_unique_keys [OF assms])
  have "k \<in> \<Union> (set ` set (fst ?s)) \<union> set (snd ?s)" if "k \<in> graph_ids ?u" for k
  proof -
    from that keys obtain e where e: "e \<in> set ?u" and k: "k = fst e"
      by blast
    show ?thesis
    proof (cases "snd e = []")
      case True
      with e have "fst e \<in> fst ` {e \<in> set ?u. snd e = []}"
        by blast
      then have "fst e \<in> set (snd ?s)"
        by (simp only: uni)
      then show ?thesis
        unfolding k by (rule UnI2)
    next
      case False
      have "fst e \<in> set (build_temp_cluster [fst e] ?u (fst e))"
        by (rule build_temp_cluster_start)
      with e False have "fst e \<in> (\<Union>e \<in> {e \<in> set ?u. snd e \<noteq> []}.
          set (build_temp_cluster [fst e] ?u (fst e)))"
        by blast
      then have "fst e \<in> \<Union> (set ` set (fst ?s))"
        unfolding fold_cluster_entry_unique_clusters by (rule UnI2)
      then show ?thesis
        unfolding k by (rule UnI1)
    qed
  qed
  then have "graph_ids ?u \<subseteq> \<Union> (set ` set (fst ?s)) \<union> set (snd ?s)"
    by (rule subsetI)
  moreover have "\<Union> (set ` set (fst ?s)) \<union> set (snd ?s) \<subseteq> graph_ids ?u"
    using sub usub by (rule Un_least)
  ultimately have cover: "\<Union> (set ` set (fst ?s)) \<union> set (snd ?s) = graph_ids ?u"
    by (rule equalityI [rotated])
  have "graph_ids ?u = {a. a < length file_list \<and> imread H (file_list ! a) \<noteq> None}"
    unfolding valid by (auto simp: hash_of_def split: option.splits)
  with cover show ?thesis
    by simp
qed

lemma similar_ids_mono:
  assumes "t1 \<le> t2"
  shows "similar_ids H file_list t1 \<subseteq> similar_ids H file_list t2"
  using assms by (auto simp: similar_ids_def similar_pair_def split: option.splits)

text \<open>The state in which the loop with unique images ends.\<close>

lemma cluster_entries_unique_partition:
  fixes H :: "('img, 'h) hasher"
  defines "s \<equiv> \<lambda>hardware_concurrency threshold file_list.
      fold (cluster_entry_unique
          (similarities_unique H (num_threads_of hardware_concurrency) threshold file_list))
        (similarities_unique H (num_threads_of hardware_concurrency) threshold file_list)
        ([], [])"
  shows "\<forall>a < length (fst (s hardware_concurrency threshold file_list)).
      \<forall>b < length (fst (s hardware_concurrency threshold file_list)).
        a \<noteq> b \<longrightarrow> set (fst (s hardware_concurrency threshold file_list) ! a)
          \<inter> set (fst (s hardware_concurrency threshold file_list) ! b) = {}"
    and "\<Union> (set ` set (fst (s hardware_concurrency threshold file_list)))
      \<inter> set (snd (s hardware_concurrency threshold file_list)) = {}"
    and "\<Union> (set ` set (fst (s hardware_concurrency threshold file_list)))
      \<union> set (snd (s hardware_concurrency threshold file_list))
       = {a. a < length file_list \<and> imread H (file_list ! a) \<noteq> None}"
    and "set (snd (s hardware_concurrency threshold file_list))
       = {a. a < length file_list \<and> imread H (file_list ! a) \<noteq> None
            \<and> similar_ids H file_list threshold `` {a} = {}}"
    and "\<forall>c \<in> set (fst (s hardware_concurrency threshold file_list)). c \<noteq> []"
    and "\<forall>c \<in> set (fst (s hardware_concurrency threshold file_list)). \<forall>i \<in> set c.
          set c = (similar_ids H file_list threshold)\<^sup>* `` {i}"
  unfolding s_def
proof -
  let ?n = "num_threads_of hardware_concurrency"
  let ?u = "similarities_unique H ?n threshold file_list"
  let ?s = "fold (cluster_entry_unique ?u) ?u ([], [])"
  have pos: "0 < ?n"
    by simp
  have e: "edges ?u = similar_ids H file_list threshold"
    using pos by (rule edges_similarities_unique)
  have s: "sym (edges ?u)"
    unfolding e by (rule sym_similar_ids)
  have "component_clusters ?u (fst ([], []))"
    by (simp add: component_clusters_def)
  with s similarities_unique_ascending(1) subset_refl have cc: "component_clusters ?u (fst ?s)"
    by (rule component_clusters_fold)
  have 1: "\<forall>a < length (fst ?s). \<forall>b < length (fst ?s).
      a \<noteq> b \<longrightarrow> set (fst ?s ! a) \<inter> set (fst ?s ! b) = {}"
    using component_clusters_disjoint [OF s cc] by blast
  have d: "distinct (map fst ?u)"
    by (rule keys_ascending_distinct) (rule similarities_unique_ascending(1))
  have entry: "(i, ns) \<in> set ?u \<longleftrightarrow> i \<in> fst ` set ?u \<and> neighbours ?u i = ns" for i ns
  proof
    assume "(i, ns) \<in> set ?u"
    with d have "map_of ?u i = Some ns"
      by (rule map_of_is_SomeI)
    then have "neighbours ?u i = ns"
      by (rule neighbours_Some)
    with \<open>(i, ns) \<in> set ?u\<close> show "i \<in> fst ` set ?u \<and> neighbours ?u i = ns"
      by force
  next
    assume a: "i \<in> fst ` set ?u \<and> neighbours ?u i = ns"
    then obtain ns' where m: "(i, ns') \<in> set ?u"
      by auto
    with d have "map_of ?u i = Some ns'"
      by (rule map_of_is_SomeI)
    then have "neighbours ?u i = ns'"
      by (rule neighbours_Some)
    with a m show "(i, ns) \<in> set ?u"
      by simp
  qed
  have "set (snd ?s) = {i. (i, []) \<in> set ?u}"
    unfolding fold_cluster_entry_unique_unique by force
  also have "\<dots> = {i. i \<in> fst ` set ?u \<and> set (neighbours ?u i) = {}}"
    unfolding entry by simp
  also have "\<dots> = {a. a < length file_list \<and> hash_of H (file_list ! a) \<noteq> None
      \<and> edges ?u `` {a} = {}}"
    unfolding similarities_unique_keys [OF pos] edges_Image by simp
  also have "\<dots> = {a. a < length file_list \<and> imread H (file_list ! a) \<noteq> None
      \<and> similar_ids H file_list threshold `` {a} = {}}"
    unfolding e by (auto simp: hash_of_def split: option.splits)
  finally have 5: "set (snd ?s) = {a. a < length file_list \<and> imread H (file_list ! a) \<noteq> None
      \<and> similar_ids H file_list threshold `` {a} = {}}" .
  have isolated: "neighbours ?u i = []" if "i \<in> set (snd ?s)" for i
  proof -
    from that have "edges ?u `` {i} = {}"
      unfolding 5 e by simp
    then show ?thesis
      by (simp add: edges_Image)
  qed
  have 2: "\<Union> (set ` set (fst ?s)) \<inter> set (snd ?s) = {}"
  proof (rule ccontr)
    assume "\<Union> (set ` set (fst ?s)) \<inter> set (snd ?s) \<noteq> {}"
    then obtain i c where "c \<in> set (fst ?s)" and "i \<in> set c" and "i \<in> set (snd ?s)"
      by blast
    with component_clusters_not_isolated [OF s cc] isolated show False
      by blast
  qed
  have 3: "\<Union> (set ` set (fst ?s)) \<union> set (snd ?s)
       = {a. a < length file_list \<and> imread H (file_list ! a) \<noteq> None}"
    using pos by (rule cluster_entry_unique_cover)
  have 4: "\<forall>c \<in> set (fst ?s). \<forall>i \<in> set c.
          set c = (similar_ids H file_list threshold)\<^sup>* `` {i}"
    using component_clusters_members [OF s cc] unfolding e by blast
  have 6: "\<forall>c \<in> set (fst ?s). c \<noteq> []"
  proof
    fix c
    assume "c \<in> set (fst ?s)"
    with cc obtain k where "set c = (edges ?u)\<^sup>* `` {k}"
      unfolding component_clusters_def by blast
    then have "k \<in> set c"
      by simp
    then show "c \<noteq> []"
      by auto
  qed
  from 1 show "\<forall>a < length (fst ?s). \<forall>b < length (fst ?s).
      a \<noteq> b \<longrightarrow> set (fst ?s ! a) \<inter> set (fst ?s ! b) = {}" .
  from 2 show "\<Union> (set ` set (fst ?s)) \<inter> set (snd ?s) = {}" .
  from 3 show "\<Union> (set ` set (fst ?s)) \<union> set (snd ?s)
       = {a. a < length file_list \<and> imread H (file_list ! a) \<noteq> None}" .
  from 5 show "set (snd ?s) = {a. a < length file_list \<and> imread H (file_list ! a) \<noteq> None
      \<and> similar_ids H file_list threshold `` {a} = {}}" .
  from 6 show "\<forall>c \<in> set (fst ?s). c \<noteq> []" .
  from 4 show "\<forall>c \<in> set (fst ?s). \<forall>i \<in> set c.
          set c = (similar_ids H file_list threshold)\<^sup>* `` {i}" .
qed

text \<open>
  With unique images the run ends without an exception; its clusters are pairwise
  disjoint and disjoint from the unique images, clusters and unique images together
  are the files that decode, the unique images are the files without a partner within
  the threshold, and every cluster is the set of ids connected to any of its members
  by a chain of pairs within the threshold.
\<close>

theorem clusters_with_unique_partition:
  "\<exists>clusters unique.
     image_clusters_unique_of H (num_threads_of hardware_concurrency) threshold file_list
       = Some (clusters, unique)
     \<and> (\<forall>a < length clusters. \<forall>b < length clusters.
          a \<noteq> b \<longrightarrow> set (clusters ! a) \<inter> set (clusters ! b) = {})
     \<and> \<Union> (set ` set clusters) \<inter> set unique = {}
     \<and> \<Union> (set ` set clusters) \<union> set unique
       = {a. a < length file_list \<and> imread H (file_list ! a) \<noteq> None}
     \<and> set unique
       = {a. a < length file_list \<and> imread H (file_list ! a) \<noteq> None
            \<and> similar_ids H file_list threshold `` {a} = {}}
     \<and> (\<forall>c \<in> set clusters. c \<noteq> [])
     \<and> (\<forall>c \<in> set clusters. \<forall>i \<in> set c.
          set c = (similar_ids H file_list threshold)\<^sup>* `` {i})"
proof -
  let ?u = "similarities_unique H (num_threads_of hardware_concurrency) threshold file_list"
  let ?s = "fold (cluster_entry_unique ?u) ?u ([], [])"
  have "image_clusters_unique_of H (num_threads_of hardware_concurrency) threshold file_list
      = Some (fst ?s, snd ?s)"
    using image_clusters_unique_of_eq [OF num_threads_of_pos] by simp
  then show ?thesis
    using cluster_entries_unique_partition [of H hardware_concurrency threshold file_list]
    by (intro exI [of _ "fst ?s"] exI [of _ "snd ?s"] conjI)
qed

text \<open>
  With unique images, a cluster at a threshold is inside a cluster at every higher
  threshold.
\<close>

theorem clusters_with_unique_refine:
  assumes "t1 \<le> t2"
    and "image_clusters_unique_of H (num_threads_of hc1) t1 file_list = Some (clusters1, unique1)"
    and "image_clusters_unique_of H (num_threads_of hc2) t2 file_list = Some (clusters2, unique2)"
    and "c1 \<in> set clusters1"
  shows "\<exists>c2 \<in> set clusters2. set c1 \<subseteq> set c2"
proof -
  let ?r1 = "similar_ids H file_list t1" and ?r2 = "similar_ids H file_list t2"
  let ?valid = "{a. a < length file_list \<and> imread H (file_list ! a) \<noteq> None}"
  let ?u1 = "similarities_unique H (num_threads_of hc1) t1 file_list"
  let ?u2 = "similarities_unique H (num_threads_of hc2) t2 file_list"
  have "image_clusters_unique_of H (num_threads_of hc1) t1 file_list
      = Some (fold (cluster_entry_unique ?u1) ?u1 ([], []))"
    by (rule image_clusters_unique_of_eq) simp
  with assms(2) have s1: "fold (cluster_entry_unique ?u1) ?u1 ([], []) = (clusters1, unique1)"
    by simp
  have "image_clusters_unique_of H (num_threads_of hc2) t2 file_list
      = Some (fold (cluster_entry_unique ?u2) ?u2 ([], []))"
    by (rule image_clusters_unique_of_eq) simp
  with assms(3) have s2: "fold (cluster_entry_unique ?u2) ?u2 ([], []) = (clusters2, unique2)"
    by simp
  note p1 = cluster_entries_unique_partition [of H hc1 t1 file_list, unfolded s1 fst_conv snd_conv]
  note p2 = cluster_entries_unique_partition [of H hc2 t2 file_list, unfolded s2 fst_conv snd_conv]
  note disj1 = p1(2) and cover1 = p1(3) and uni1 = p1(4) and ne1 = p1(5) and mem1 = p1(6)
  note cover2 = p2(3) and uni2 = p2(4) and mem2 = p2(6)
  have mono: "?r1 \<subseteq> ?r2"
    using assms(1) by (rule similar_ids_mono)
  from ne1 assms(4) obtain i where i: "i \<in> set c1"
    by (cases c1) auto
  with assms(4) cover1 have valid: "i \<in> ?valid"
    by blast
  from i assms(4) disj1 have "i \<notin> set unique1"
    by blast
  with valid uni1 have "?r1 `` {i} \<noteq> {}"
    by blast
  with mono have "?r2 `` {i} \<noteq> {}"
    by blast
  with uni2 have "i \<notin> set unique2"
    by blast
  with valid cover2 obtain c2 where c2: "c2 \<in> set clusters2" and i2: "i \<in> set c2"
    by blast
  from mem1 assms(4) i have "set c1 = ?r1\<^sup>* `` {i}"
    by blast
  moreover from mem2 c2 i2 have "set c2 = ?r2\<^sup>* `` {i}"
    by blast
  moreover from mono have "?r1\<^sup>* \<subseteq> ?r2\<^sup>*"
    by (rule rtrancl_mono)
  ultimately have "set c1 \<subseteq> set c2"
    by blast
  with c2 show ?thesis
    by blast
qed

chapter \<open>The claims\<close>

section \<open>C1: the clusters as a partition\<close>

text \<open>
  C1. The clusters \<open>img-similarity-cluster\<close> emits are not always pairwise disjoint.
  Five files with fingerprints at Hamming distance 2 along the chain
  0 - 3 - 2 - 4 - 1 (and more than 2 otherwise), threshold 2: the second cluster is
  built from id 1, the third temporary cluster \<open>{2, 3, 4}\<close> is merged into the first
  cluster only, and id 4 ends in both emitted clusters. (The union of the clusters is
  the set of ids with a partner within the threshold, see C8; the variant with \<open>-u\<close>
  emits a partition, see \<open>clusters_with_unique_partition\<close>.)
\<close>

theorem clusters_share_an_id:
  "image_clusters_of bit_hasher 2 2
     [''00000000'', ''11111111'', ''11110000'', ''11000000'', ''11111100'']
   = [[0, 2, 3, 4], [1, 4]]"
  by code_simp

section \<open>C2: the edges of the similarity graph\<close>



section \<open>C3: clusters and chains of similar pairs\<close>

text \<open>
  C3. On the files of C1 the ids 0 and 1 are connected by the chain of similar pairs
  0 - 3, 2 - 3, 2 - 4, 1 - 4, and no printed cluster of \<open>img-similarity-cluster\<close> holds
  both the first and the second file.
\<close>

theorem connected_ids_in_different_clusters:
  "similar_pair bit_hasher
     (hash_phase bit_hasher 1
        [''00000000'', ''11111111'', ''11110000'', ''11000000'', ''11111100'']) 2 0 3
   \<and> similar_pair bit_hasher
     (hash_phase bit_hasher 1
        [''00000000'', ''11111111'', ''11110000'', ''11000000'', ''11111100'']) 2 2 3
   \<and> similar_pair bit_hasher
     (hash_phase bit_hasher 1
        [''00000000'', ''11111111'', ''11110000'', ''11000000'', ''11111100'']) 2 2 4
   \<and> similar_pair bit_hasher
     (hash_phase bit_hasher 1
        [''00000000'', ''11111111'', ''11110000'', ''11000000'', ''11111100'']) 2 1 4
   \<and> img_similarity_cluster example_stod bit_hasher 1 True ''2''
       [''00000000'', ''11111111'', ''11110000'', ''11000000'', ''11111100'']
     = [[''00000000'', ''11110000'', ''11000000'', ''11111100''], [''11111111'', ''11111100'']]"
  by code_simp

section \<open>C4: the keys of the similarity graph\<close>



section \<open>C5: a lower threshold\<close>

text \<open>
  C5. Five files with fingerprints at the positions 10, 0, 4, 2, 7 of a line. At
  threshold 2 the only cluster of \<open>img-similarity-cluster\<close> is \<open>{1, 2, 3}\<close>; at
  threshold 3 the clusters are \<open>{0, 2, 3, 4}\<close> and \<open>{1, 3}\<close>, and neither contains
  \<open>{1, 2, 3}\<close>. (The variant with \<open>-u\<close> refines, see \<open>clusters_with_unique_refine\<close>.)
\<close>

theorem lower_threshold_cluster_not_refined:
  "image_clusters_of bit_hasher 4 2
     [''1111111111'', ''0000000000'', ''1111000000'', ''1100000000'', ''1111111000'']
   = [[1, 2, 3]]
   \<and> image_clusters_of bit_hasher 4 3
     [''1111111111'', ''0000000000'', ''1111000000'', ''1100000000'', ''1111111000'']
   = [[0, 2, 3, 4], [1, 3]]"
  by code_simp

section \<open>C6: worker count and schedule\<close>

text \<open>
  C6. Two runs of \<open>img-similarity-cluster\<close> on the same files and threshold, with
  any two values of \<open>hardware_concurrency\<close> (0 gives one worker) and any schedules of
  the workers of the hash phase and of the comparison phase, end with the same hash
  list and the same similarity graph, hence with the same clusters; these are the
  clusters of the run that lets the workers work one after the other.
\<close>

theorem worker_count_and_schedule_irrelevant:
  assumes "scheduled_hash_phase H (num_threads_of hc1) hash_schedule1 file_list = Some hl1"
    and "scheduled_similarity_phase H (num_threads_of hc1) pair_schedule1 threshold hl1 = Some g1"
    and "scheduled_hash_phase H (num_threads_of hc2) hash_schedule2 file_list = Some hl2"
    and "scheduled_similarity_phase H (num_threads_of hc2) pair_schedule2 threshold hl2 = Some g2"
  shows "hl1 = hl2 \<and> g1 = g2 \<and> build_clusters g1 = build_clusters g2
     \<and> build_clusters g1 = image_clusters_of H (num_threads_of hc1) threshold file_list"
proof -
  have p1: "0 < num_threads_of hc1" and p2: "0 < num_threads_of hc2"
    by simp_all
  have hl1: "hl1 = map (hash_of H) file_list"
    using scheduled_hash_phase_eq [OF p1 assms(1)] hash_phase_eq [OF p1] by simp
  have hl2: "hl2 = map (hash_of H) file_list"
    using scheduled_hash_phase_eq [OF p2 assms(3)] hash_phase_eq [OF p2] by simp
  have g1: "g1 = similarity_phase H (num_threads_of hc1) threshold hl1"
    using p1 assms(2) by (rule scheduled_similarity_phase_eq)
  have g2: "g2 = similarity_phase H (num_threads_of hc2) threshold hl2"
    using p2 assms(4) by (rule scheduled_similarity_phase_eq)
  have "g1 = g2"
    unfolding g1 g2 hl1 hl2 using p1 p2 by (rule similarity_phase_threads)
  moreover have "build_clusters g1 = image_clusters_of H (num_threads_of hc1) threshold file_list"
    unfolding image_clusters_of_def g1 hl1 hash_phase_eq [OF p1] ..
  ultimately show ?thesis
    using hl1 hl2 by simp
qed

text \<open>
  An instance: one worker against three workers, where the second worker of the
  comparison phase enters its pair first.
\<close>

theorem worker_count_and_schedule_irrelevant_witness:
  "scheduled_hash_phase bit_hasher (num_threads_of 0) [0, 0, 0, 0] [''0011'', ''0111'', [], ''0001'']
     = Some [Some ''0011'', Some ''0111'', None, Some ''0001'']
   \<and> scheduled_similarity_phase bit_hasher (num_threads_of 0) [0, 0, 0] 2
       [Some ''0011'', Some ''0111'', None, Some ''0001'']
     = Some [(0, [1, 3]), (1, [3])]
   \<and> scheduled_hash_phase bit_hasher (num_threads_of 3) [1, 0, 2, 0] [''0011'', ''0111'', [], ''0001'']
     = Some [Some ''0011'', Some ''0111'', None, Some ''0001'']
   \<and> scheduled_similarity_phase bit_hasher (num_threads_of 3) [1, 0, 0] 2
       [Some ''0011'', Some ''0111'', None, Some ''0001'']
     = Some [(0, [1, 3]), (1, [3])]
   \<and> interleave [1, 0, 0]
       (map (\<lambda>t. similar_pair_sections bit_hasher
            [Some ''0011'', Some ''0111'', None, Some ''0001''] 2 t 3) [0..<3])
     = Some [(1, 3), (0, 1), (0, 3)]
   \<and> build_clusters [(0, [1, 3]), (1, [3])]
     = image_clusters_of bit_hasher (num_threads_of 0) 2 [''0011'', ''0111'', [], ''0001'']
   \<and> build_clusters [(0, [1, 3]), (1, [3])] = [[0, 1, 3]]"
proof -
  have 1: "scheduled_hash_phase bit_hasher (num_threads_of 0) [0, 0, 0, 0]
      [''0011'', ''0111'', [], ''0001'']
     = Some [Some ''0011'', Some ''0111'', None, Some ''0001'']"
    by code_simp
  have 2: "scheduled_similarity_phase bit_hasher (num_threads_of 0) [0, 0, 0] 2
       [Some ''0011'', Some ''0111'', None, Some ''0001'']
     = Some [(0, [1, 3]), (1, [3])]"
    by code_simp
  have 3: "scheduled_hash_phase bit_hasher (num_threads_of 3) [1, 0, 2, 0]
      [''0011'', ''0111'', [], ''0001'']
     = Some [Some ''0011'', Some ''0111'', None, Some ''0001'']"
    by code_simp
  have 4: "scheduled_similarity_phase bit_hasher (num_threads_of 3) [1, 0, 0] 2
       [Some ''0011'', Some ''0111'', None, Some ''0001'']
     = Some [(0, [1, 3]), (1, [3])]"
    by code_simp
  have 5: "interleave [1, 0, 0]
       (map (\<lambda>t. similar_pair_sections bit_hasher
            [Some ''0011'', Some ''0111'', None, Some ''0001''] 2 t 3) [0..<3])
     = Some [(1, 3), (0, 1), (0, 3)]"
    by code_simp
  have 6: "build_clusters [(0, [1, 3]), (1, [3])]
     = image_clusters_of bit_hasher (num_threads_of 0) 2 [''0011'', ''0111'', [], ''0001'']"
    using worker_count_and_schedule_irrelevant [OF 1 2 3 4] by blast
  have 7: "build_clusters [(0, [1, 3]), (1, [3])] = [[0, 1, 3]]"
    by code_simp
  from 1 2 3 4 5 6 7 show ?thesis
    by (intro conjI)
qed

section \<open>C7: a threshold that does not parse\<close>



section \<open>C8: files that do not decode\<close>

text \<open>
  C8. A file that \<open>imread\<close> cannot decode is no id of the similarity graph (it is no
  key and in no set), and it is in no cluster; the clusters of \<open>img-similarity-cluster\<close>
  hold exactly the ids with a partner within the threshold. The variant with \<open>-u\<close>
  ends without an exception, the file is in none of its clusters and not among its
  unique images, and its clusters and unique images together are exactly the files
  that decode.
\<close>

theorem unreadable_image_excluded:
  assumes "i < length file_list" and "imread H (file_list ! i) = None"
  shows "i \<notin> graph_ids
            (similarity_phase H (num_threads_of hardware_concurrency) threshold
               (hash_phase H (num_threads_of hardware_concurrency) file_list))
     \<and> i \<notin> \<Union> (set ` set (image_clusters_of H (num_threads_of hardware_concurrency) threshold
                   file_list))
     \<and> \<Union> (set ` set (image_clusters_of H (num_threads_of hardware_concurrency) threshold
                   file_list))
       = {a. \<exists>b. (a < b \<and> b < length file_list
                     \<and> similar_pair H (map (hash_of H) file_list) threshold a b)
                \<or> (b < a \<and> a < length file_list
                     \<and> similar_pair H (map (hash_of H) file_list) threshold b a)}
     \<and> (\<exists>clusters unique.
          image_clusters_unique_of H (num_threads_of hardware_concurrency) threshold file_list
            = Some (clusters, unique)
          \<and> i \<notin> \<Union> (set ` set clusters) \<and> i \<notin> set unique
          \<and> \<Union> (set ` set clusters) \<union> set unique
            = {a. a < length file_list \<and> imread H (file_list ! a) \<noteq> None})"
proof -
  let ?n = "num_threads_of hardware_concurrency"
  let ?g = "similarity_phase H ?n threshold (hash_phase H ?n file_list)"
  let ?u = "similarities_unique H ?n threshold file_list"
  let ?s = "fold (cluster_entry_unique ?u) ?u ([], [])"
  have pos: "0 < ?n"
    by simp
  from assms(2) have none: "hash_of H (file_list ! i) = None"
    by (rule hash_of_unreadable)
  have ids: "graph_ids ?g =
      {a. \<exists>b. (a < b \<and> b < length file_list
                     \<and> similar_pair H (map (hash_of H) file_list) threshold a b)
                \<or> (b < a \<and> a < length file_list
                     \<and> similar_pair H (map (hash_of H) file_list) threshold b a)}"
    unfolding similarity_graph_ids [OF pos] hash_phase_eq [OF pos] by simp
  have 1: "i \<notin> graph_ids ?g"
    unfolding ids using similar_pair_unreadable [OF assms(1) none] by auto
  have clusters: "\<Union> (set ` set (image_clusters_of H ?n threshold file_list)) = graph_ids ?g"
    unfolding image_clusters_of_def by (rule similarity_clusters_ids [OF pos])
  have run: "image_clusters_unique_of H ?n threshold file_list = Some (fst ?s, snd ?s)"
    using image_clusters_unique_of_eq [OF pos] by simp
  have cover: "\<Union> (set ` set (fst ?s)) \<union> set (snd ?s)
      = {a. a < length file_list \<and> imread H (file_list ! a) \<noteq> None}"
    using pos by (rule cluster_entry_unique_cover)
  from assms(2) have "i \<notin> \<Union> (set ` set (fst ?s)) \<union> set (snd ?s)"
    unfolding cover by simp
  then have "i \<notin> \<Union> (set ` set (fst ?s))" and "i \<notin> set (snd ?s)"
    by blast+
  with run cover have 4: "\<exists>clusters unique.
          image_clusters_unique_of H ?n threshold file_list = Some (clusters, unique)
          \<and> i \<notin> \<Union> (set ` set clusters) \<and> i \<notin> set unique
          \<and> \<Union> (set ` set clusters) \<union> set unique
            = {a. a < length file_list \<and> imread H (file_list ! a) \<noteq> None}"
    by (intro exI [of _ "fst ?s"] exI [of _ "snd ?s"]) simp
  from 1 clusters ids 4 show ?thesis
    by (intro conjI) simp_all
qed

text \<open>An instance: the second of five files does not decode.\<close>

theorem unreadable_image_excluded_witness:
  "1 < length [''0011'', [], ''0111'', ''1111'', ''0000'']
   \<and> imread bit_hasher ([''0011'', [], ''0111'', ''1111'', ''0000''] ! 1) = None
   \<and> image_clusters_of bit_hasher (num_threads_of 2) 1
        [''0011'', [], ''0111'', ''1111'', ''0000''] = [[0, 2, 3]]
   \<and> image_clusters_unique_of bit_hasher (num_threads_of 2) 1
        [''0011'', [], ''0111'', ''1111'', ''0000''] = Some ([[0, 2, 3]], [4])
   \<and> 1 \<notin> \<Union> (set ` set (image_clusters_of bit_hasher (num_threads_of 2) 1
        [''0011'', [], ''0111'', ''1111'', ''0000'']))"
proof -
  have 1: "1 < length [''0011'', [], ''0111'', ''1111'', ''0000'']"
    by simp
  have 2: "imread bit_hasher ([''0011'', [], ''0111'', ''1111'', ''0000''] ! 1) = None"
    by (simp add: bit_hasher_def)
  have 3: "image_clusters_of bit_hasher (num_threads_of 2) 1
        [''0011'', [], ''0111'', ''1111'', ''0000''] = [[0, 2, 3]]"
    by code_simp
  have 4: "image_clusters_unique_of bit_hasher (num_threads_of 2) 1
        [''0011'', [], ''0111'', ''1111'', ''0000''] = Some ([[0, 2, 3]], [4])"
    by code_simp
  have 5: "1 \<notin> \<Union> (set ` set (image_clusters_of bit_hasher (num_threads_of 2) 1
        [''0011'', [], ''0111'', ''1111'', ''0000'']))"
    using unreadable_image_excluded [OF 1 2, of 2 1] by (elim conjE)
  from 1 2 3 4 5 show ?thesis
    by (intro conjI)
qed

section \<open>C9: the output of img-search\<close>

text \<open>
  C9. Unless \<open>img-search\<close> prints its usage text, it prints exactly the haystack
  paths (the lines of standard input, in their order) that are within the threshold of
  at least one of the search files given on the command line. With the haystack
  \<open>X, Y\<close> and the search file \<open>Q\<close>, where only \<open>X\<close> is within the threshold of \<open>Q\<close>, the
  output is \<open>X\<close> alone.
\<close>

theorem img_search_prints_matches:
  assumes "length argv \<noteq> 1" and "argv ! 1 \<noteq> ''-h''"
  shows "printed (img_search stod H hardware_concurrency argv file_list) =
     Found (filter
       (\<lambda>file. list_ex (within_threshold H (fst (search_threshold stod argv)) file)
          (drop (fst (snd (search_threshold stod argv))) argv))
       file_list)"
proof -
  let ?P = "\<lambda>file. list_ex (within_threshold H (fst (search_threshold stod argv)) file)
          (drop (fst (snd (search_threshold stod argv))) argv)"
  from assms have "printed (img_search stod H hardware_concurrency argv file_list) =
      Found (map (\<lambda>i. file_list ! i) (filter (\<lambda>i. ?P (file_list ! i)) [0..<length file_list]))"
    by (simp add: img_search_def Let_def hash_map_phase_eq
        calculate_hash_values_map_single [unfolded One_nat_def] search_results_eq)
  then show ?thesis
    by (simp only: filter_by_index [of file_list ?P])
qed

text \<open>The instance with \<open>X\<close> = 1101, \<open>Y\<close> = 0011 and \<open>Q\<close> = 1100 at threshold 1.\<close>

theorem img_search_prints_matches_witness:
  "length [''img-search'', ''-t'', ''1'', ''1100''] \<noteq> 1
   \<and> [''img-search'', ''-t'', ''1'', ''1100''] ! 1 \<noteq> ''-h''
   \<and> within_threshold bit_hasher 1 ''1101'' ''1100''
   \<and> \<not> within_threshold bit_hasher 1 ''0011'' ''1100''
   \<and> printed (img_search (\<lambda>s. if s = ''1'' then Some 1 else None) bit_hasher 4
        [''img-search'', ''-t'', ''1'', ''1100''] [''1101'', ''0011''])
      = Found [''1101'']"
proof -
  have 1: "length [''img-search'', ''-t'', ''1'', ''1100''] \<noteq> 1"
    by simp
  have 2: "[''img-search'', ''-t'', ''1'', ''1100''] ! 1 \<noteq> ''-h''"
    by simp
  have 3: "within_threshold bit_hasher 1 ''1101'' ''1100''"
    by (simp add: within_threshold_def hash_of_def bit_hasher_def hamming_def)
  have 4: "\<not> within_threshold bit_hasher 1 ''0011'' ''1100''"
    by (simp add: within_threshold_def hash_of_def bit_hasher_def hamming_def)
  have 5: "search_threshold (\<lambda>s. if s = ''1'' then Some 1 else None)
      [''img-search'', ''-t'', ''1'', ''1100''] = (1, 3, False)"
    by (simp add: search_threshold_def)
  have "printed (img_search (\<lambda>s. if s = ''1'' then Some 1 else None) bit_hasher 4
        [''img-search'', ''-t'', ''1'', ''1100''] [''1101'', ''0011''])
      = Found [''1101'']"
    unfolding img_search_prints_matches [OF 1 2] 5
    using 3 4 by simp
  with 1 2 3 4 show ?thesis
    by (intro conjI)
qed

section \<open>C10: the traversal terminates\<close>

text \<open>
  C10. \<open>build_temp_cluster\<close> terminates on every graph and start id, and the depth of
  its recursion is bounded by the ids of the graph: a call stack with room for more
  activations than there are ids of the graph outside \<open>temp_cluster\<close> is never
  exhausted, and the traversal returns the cluster. (The function itself is defined by
  well-founded recursion on these ids.) The variant that reads the graph with \<open>at\<close>
  either throws or returns the same cluster.
\<close>

theorem build_temp_cluster_terminates:
  assumes "card (graph_ids image_similarities - set temp_cluster) < d"
  shows "build_temp_cluster_depth d temp_cluster image_similarities start
           = Some (build_temp_cluster temp_cluster image_similarities start)
       \<and> (build_temp_cluster_at temp_cluster image_similarities start = None
          \<or> build_temp_cluster_at temp_cluster image_similarities start
              = build_temp_cluster_depth d temp_cluster image_similarities start)"
proof -
  have "build_temp_cluster_depth d temp_cluster image_similarities start
           = Some (build_temp_cluster temp_cluster image_similarities start)"
    using assms by (rule build_temp_cluster_depth_enough(1))
  then show ?thesis
    using build_temp_cluster_at_Some(1) [of temp_cluster image_similarities start]
    by (cases "build_temp_cluster_at temp_cluster image_similarities start") auto
qed

text \<open>
  An instance on a graph of four ids: a depth of 4 is enough, a depth of 3 is not.
\<close>

theorem build_temp_cluster_terminates_witness:
  "card (graph_ids [(0, [1, 2]), (1, [0, 2]), (2, [0, 1, 3]), (3, [2])] - set [0]) < 4
   \<and> build_temp_cluster_depth 4 [0] [(0, [1, 2]), (1, [0, 2]), (2, [0, 1, 3]), (3, [2])] 0
       = Some [0, 1, 2, 3]
   \<and> build_temp_cluster_at [0] [(0, [1, 2]), (1, [0, 2]), (2, [0, 1, 3]), (3, [2])] 0
       = Some [0, 1, 2, 3]
   \<and> build_temp_cluster_depth 3 [0] [(0, [1, 2]), (1, [0, 2]), (2, [0, 1, 3]), (3, [2])] 0 = None"
proof -
  have "graph_ids [(0, [1, 2]), (1, [0, 2]), (2, [0, 1, 3]), (3, [2])] - set [0] = {1, 2, 3}"
    by (auto simp: graph_ids_def)
  then have c: "card (graph_ids [(0, [1, 2]), (1, [0, 2]), (2, [0, 1, 3]), (3, [2])] - set [0]) < 4"
    by simp
  have r: "build_temp_cluster [0] [(0, [1, 2]), (1, [0, 2]), (2, [0, 1, 3]), (3, [2])] 0 = [0, 1, 2, 3]"
    by code_simp
  have a: "build_temp_cluster_at [0] [(0, [1, 2]), (1, [0, 2]), (2, [0, 1, 3]), (3, [2])] 0
       = Some [0, 1, 2, 3]"
    by code_simp
  have n: "build_temp_cluster_depth 3 [0] [(0, [1, 2]), (1, [0, 2]), (2, [0, 1, 3]), (3, [2])] 0 = None"
    by code_simp
  have "build_temp_cluster_depth 4 [0] [(0, [1, 2]), (1, [0, 2]), (2, [0, 1, 3]), (3, [2])] 0
      = Some (build_temp_cluster [0] [(0, [1, 2]), (1, [0, 2]), (2, [0, 1, 3]), (3, [2])] 0)"
    using build_temp_cluster_terminates [OF c, of 0] by (rule conjunct1)
  then have d: "build_temp_cluster_depth 4 [0] [(0, [1, 2]), (1, [0, 2]), (2, [0, 1, 3]), (3, [2])] 0
      = Some [0, 1, 2, 3]"
    by (simp only: r)
  from c d a n show ?thesis
    by (intro conjI)
qed

end
